theory Spec2Isabelle
  imports Main "HOL-Library.AList"
begin

section \<open>Python dictionaries\<close>

text \<open>
  A Python \<^verbatim>\<open>dict\<close> is an association list in insertion order. A lookup reads the
  first pair with the key; \<^verbatim>\<open>d[k] = v\<close> replaces the value in place when the key is
  there and appends the pair otherwise, which is what \<open>AList.update\<close> does. The keys of
  a real dictionary are distinct; the operations below keep them so
  (\<open>dict_set_distinct\<close>).
\<close>

type_synonym ('k, 'v) dict = "('k \<times> 'v) list"

definition dict_keys :: "('k, 'v) dict \<Rightarrow> 'k list" where
  "dict_keys d = map fst d"

text \<open>\<^verbatim>\<open>d.get(k, default)\<close>\<close>

definition dict_get :: "('k, 'v) dict \<Rightarrow> 'k \<Rightarrow> 'v \<Rightarrow> 'v" where
  "dict_get d k dflt = (case map_of d k of None \<Rightarrow> dflt | Some v \<Rightarrow> v)"

text \<open>\<^verbatim>\<open>d[k] = v\<close>\<close>

definition dict_set :: "('k, 'v) dict \<Rightarrow> 'k \<Rightarrow> 'v \<Rightarrow> ('k, 'v) dict" where
  "dict_set d k v = AList.update k v d"

text \<open>
  \<^verbatim>\<open>a == b\<close> on dictionaries: the same keys with the same values, whatever the
  insertion order.
\<close>

definition dict_eq :: "('k, 'v) dict \<Rightarrow> ('k, 'v) dict \<Rightarrow> bool" where
  "dict_eq a b = list_all (\<lambda>k. map_of a k = map_of b k) (dict_keys a @ dict_keys b)"

datatype error = KeyError | TypeError

section \<open>The class \<^verbatim>\<open>VectorClock\<close> of \<^verbatim>\<open>vector_clock_process.py\<close>\<close>

text \<open>Process identities are any hashable value; counters are Python integers.\<close>

record 'p VectorClock =
  process_id :: 'p
  clock :: "('p, int) dict"

text \<open>
  \<^verbatim>\<open>__init__(process_id, initial_clock=None)\<close>: an initial clock that is \<^verbatim>\<open>None\<close>
  or empty is falsy and gives the empty dictionary, any other one is copied; the own
  entry is added with 0 when it is missing.
\<close>

definition init :: "'p \<Rightarrow> ('p, int) dict option \<Rightarrow> 'p VectorClock" where
  "init pid initial_clock =
     (let c = (case initial_clock of None \<Rightarrow> [] | Some d \<Rightarrow> if d = [] then [] else d)
      in \<lparr>process_id = pid,
          clock = (if pid \<in> set (dict_keys c) then c else dict_set c pid 0)\<rparr>)"

text \<open>
  \<^verbatim>\<open>increment\<close>: \<^verbatim>\<open>self.clock[self.process_id] += 1\<close> raises \<^verbatim>\<open>KeyError\<close> when the own
  entry is missing; otherwise the new value is returned.
\<close>

definition increment :: "'p VectorClock \<Rightarrow> error + ('p VectorClock \<times> int)" where
  "increment vc =
     (case map_of (clock vc) (process_id vc) of
        None \<Rightarrow> Inl KeyError
      | Some v \<Rightarrow> Inr (vc\<lparr>clock := dict_set (clock vc) (process_id vc) (v + 1)\<rparr>, v + 1))"

text \<open>
  \<^verbatim>\<open>set(a.keys()) | set(b.keys())\<close>. Python leaves the iteration order of a set open;
  the list below fixes one, and the loops over it are shown not to depend on it
  (\<open>update_loop_order\<close>, \<open>compare_loop_flags\<close>).
\<close>

definition all_processes :: "('p, int) dict \<Rightarrow> ('p, int) dict \<Rightarrow> 'p list" where
  "all_processes a b = remdups (dict_keys a @ dict_keys b)"

text \<open>One round of the loop of \<^verbatim>\<open>update\<close>, for the key \<open>k\<close>.\<close>

definition merge_step :: "('p, int) dict \<Rightarrow> 'p \<Rightarrow> ('p, int) dict \<Rightarrow> ('p, int) dict" where
  "merge_step received_clock k c =
     (let local_val = dict_get c k 0;
          remote_val = dict_get received_clock k 0
      in dict_set c k (max local_val remote_val))"

definition update_loop :: "'p list \<Rightarrow> ('p, int) dict \<Rightarrow> ('p, int) dict \<Rightarrow> ('p, int) dict" where
  "update_loop ks c received_clock = fold (merge_step received_clock) ks c"

text \<open>The merge of \<^verbatim>\<open>update\<close> before the own entry is incremented.\<close>

definition merged :: "('p, int) dict \<Rightarrow> ('p, int) dict \<Rightarrow> ('p, int) dict" where
  "merged c received_clock = update_loop (all_processes c received_clock) c received_clock"

definition update :: "'p VectorClock \<Rightarrow> ('p, int) dict \<Rightarrow> error + 'p VectorClock" where
  "update vc received_clock =
     (case increment (vc\<lparr>clock := merged (clock vc) received_clock\<rparr>) of
        Inl e \<Rightarrow> Inl e
      | Inr (vc', n) \<Rightarrow> Inr vc')"

text \<open>
  One round of the loop of \<^verbatim>\<open>compare\<close> on the flags
  \<^verbatim>\<open>(less_than_all, greater_than_all)\<close>.
\<close>

definition compare_step ::
  "('p, int) dict \<Rightarrow> ('p, int) dict \<Rightarrow> 'p \<Rightarrow> bool \<times> bool \<Rightarrow> bool \<times> bool" where
  "compare_step c other_clock k flags =
     (let local_val = dict_get c k 0;
          other_val = dict_get other_clock k 0
      in if local_val < other_val then (fst flags, False)
         else if local_val > other_val then (False, snd flags)
         else flags)"

text \<open>
  \<^verbatim>\<open>compare\<close> returns \<^verbatim>\<open>None\<close> (identical), \<^verbatim>\<open>-1\<close> (before), \<^verbatim>\<open>1\<close> (after) or
  \<^verbatim>\<open>0\<close> (concurrent).
\<close>

definition compare :: "'p VectorClock \<Rightarrow> ('p, int) dict \<Rightarrow> int option" where
  "compare vc other_clock =
     (if dict_eq (clock vc) other_clock then None
      else
        (let flags = fold (compare_step (clock vc) other_clock)
                       (all_processes (clock vc) other_clock) (True, True);
             less_than_all = fst flags;
             greater_than_all = snd flags
         in if less_than_all \<and> \<not> greater_than_all then Some (- 1)
            else if greater_than_all \<and> \<not> less_than_all then Some 1
            else Some 0))"

definition happens_before :: "'p VectorClock \<Rightarrow> ('p, int) dict \<Rightarrow> bool" where
  "happens_before vc other_clock = (compare vc other_clock = Some (- 1))"

definition happens_after :: "'p VectorClock \<Rightarrow> ('p, int) dict \<Rightarrow> bool" where
  "happens_after vc other_clock = (compare vc other_clock = Some 1)"

definition is_concurrent :: "'p VectorClock \<Rightarrow> ('p, int) dict \<Rightarrow> bool" where
  "is_concurrent vc other_clock = (compare vc other_clock = Some 0)"

text \<open>\<^verbatim>\<open>get_clock\<close> returns a copy; on values the copy is the value.\<close>

definition get_clock :: "'p VectorClock \<Rightarrow> ('p, int) dict" where
  "get_clock vc = clock vc"

text \<open>
  A sequence of operations on one clock object; a raised error ends the run.
\<close>

datatype 'p clock_op = Increment | Merge "('p, int) dict"

fun apply_op :: "'p VectorClock \<Rightarrow> 'p clock_op \<Rightarrow> error + 'p VectorClock" where
  "apply_op vc Increment =
     (case increment vc of Inl e \<Rightarrow> Inl e | Inr (vc', n) \<Rightarrow> Inr vc')"
| "apply_op vc (Merge received_clock) = update vc received_clock"

fun apply_ops :: "'p VectorClock \<Rightarrow> 'p clock_op list \<Rightarrow> error + 'p VectorClock" where
  "apply_ops vc [] = Inr vc"
| "apply_ops vc (x # xs) =
     (case apply_op vc x of Inl e \<Rightarrow> Inl e | Inr vc' \<Rightarrow> apply_ops vc' xs)"

text \<open>The invariant of a clock object: the own entry is there and no counter is negative.\<close>

definition nonneg :: "('p, int) dict \<Rightarrow> bool" where
  "nonneg d = list_all (\<lambda>kv. 0 \<le> snd kv) d"

definition clock_inv :: "'p VectorClock \<Rightarrow> bool" where
  "clock_inv vc = (process_id vc \<in> set (dict_keys (clock vc)) \<and> nonneg (clock vc))"

text \<open>
  The clock \<open>w\<close> is the clock \<open>v\<close> or a later state of it: same owner, every key kept, no
  counter smaller.
\<close>

definition clock_le :: "'p VectorClock \<Rightarrow> 'p VectorClock \<Rightarrow> bool" where
  "clock_le v w = (process_id w = process_id v \<and>
     (\<forall>k\<in>set (dict_keys (clock v)).
        k \<in> set (dict_keys (clock w)) \<and> dict_get (clock v) k 0 \<le> dict_get (clock w) k 0))"

section \<open>Received clocks that may hold a value that is not a number\<close>

text \<open>
  A counter that arrives from outside is an integer or some value that is not a number
  (a string, \<^verbatim>\<open>None\<close>, a list): \<^verbatim>\<open>max\<close> of an integer and such a value raises
  \<^verbatim>\<open>TypeError\<close>. The clock of the process itself holds integers only, since a failed
  \<^verbatim>\<open>max\<close> stores nothing.
\<close>

datatype pyval = PyInt int | NonNumeric

definition ints :: "('p, int) dict \<Rightarrow> ('p, pyval) dict" where
  "ints d = map (\<lambda>kv. (fst kv, PyInt (snd kv))) d"


text \<open>
  The loop of \<^verbatim>\<open>update\<close> on such a received clock, over the keys in the order \<open>ks\<close>:
  the clock as the loop leaves it, and the error when \<^verbatim>\<open>max\<close> raised.
\<close>

fun update_loop_raw ::
  "'p list \<Rightarrow> ('p, int) dict \<Rightarrow> ('p, pyval) dict \<Rightarrow> ('p, int) dict \<times> error option" where
  "update_loop_raw [] c received_clock = (c, None)"
| "update_loop_raw (k # ks) c received_clock =
     (let local_val = dict_get c k 0
      in case dict_get received_clock k (PyInt 0) of
           PyInt remote_val \<Rightarrow>
             update_loop_raw ks (dict_set c k (max local_val remote_val)) received_clock
         | NonNumeric \<Rightarrow> (c, Some TypeError))"

text \<open>
  \<^verbatim>\<open>update\<close> on such a received clock: the object after the call, and the error or the
  normal return.
\<close>

definition update_raw ::
  "'p list \<Rightarrow> 'p VectorClock \<Rightarrow> ('p, pyval) dict \<Rightarrow> 'p VectorClock \<times> (error + unit)" where
  "update_raw ks vc received_clock =
     (case update_loop_raw ks (clock vc) received_clock of
        (c, Some e) \<Rightarrow> (vc\<lparr>clock := c\<rparr>, Inl e)
      | (c, None) \<Rightarrow>
          (case increment (vc\<lparr>clock := c\<rparr>) of
             Inl e \<Rightarrow> (vc\<lparr>clock := c\<rparr>, Inl e)
           | Inr (vc', n) \<Rightarrow> (vc', Inr ())))"

section \<open>The class \<^verbatim>\<open>VectorClockProcess\<close>, on a store of dictionaries\<close>

text \<open>
  Dictionaries are objects: the clock of a process is mutated in place, and a message
  carries a reference to its stamp. The store lists the dictionaries that exist, an
  address is an index into it, and a new dictionary is appended. The copies that the
  \<^verbatim>\<open>print\<close> calls make and drop are left out.
\<close>

type_synonym 'p store = "('p, int) dict list"

text \<open>
  A message is the dictionary built by \<^verbatim>\<open>send_message\<close>; the keys \<^verbatim>\<open>'content'\<close> and
  \<^verbatim>\<open>'vector_clock'\<close> may be missing from one that arrives (\<open>None\<close>). The stamp \<open>'s\<close> of
  a message built in the store is the address of its dictionary (\<open>nat\<close>); a message
  that arrives from outside carries its stamp as a dictionary of whatever values.
\<close>

record ('p, 'c, 's) message =
  content :: "'c option"
  sender :: 'p
  vector_clock :: "'s option"
  target :: "'p option"

record ('p, 'c, 's) log_entry =
  logged_message :: "('p, 'c, 's) message"
  local_clock :: nat
  timestamp :: nat

text \<open>
  \<open>pid\<close> is \<^verbatim>\<open>self.process_id\<close>, which is also the identity of the clock object;
  \<open>clock_ref\<close> is the address of \<^verbatim>\<open>self.vector_clock.clock\<close>.
\<close>

record ('p, 'c, 's) VectorClockProcess =
  pid :: 'p
  clock_ref :: nat
  message_log :: "('p, 'c, 's) log_entry list"

definition new_process :: "'p store \<Rightarrow> 'p \<Rightarrow> 'p store \<times> ('p, 'c, 's) VectorClockProcess" where
  "new_process st p =
     (st @ [clock (init p None)], \<lparr>pid = p, clock_ref = length st, message_log = []\<rparr>)"

definition vector_clock_of :: "'p store \<Rightarrow> ('p, 'c, 's) VectorClockProcess \<Rightarrow> 'p VectorClock" where
  "vector_clock_of st p = \<lparr>process_id = pid p, clock = st ! clock_ref p\<rparr>"

definition obj_increment ::
  "'p store \<Rightarrow> ('p, 'c, 's) VectorClockProcess \<Rightarrow> (error \<times> 'p store) + ('p store \<times> int)" where
  "obj_increment st p =
     (case increment (vector_clock_of st p) of
        Inl e \<Rightarrow> Inl (e, st)
      | Inr (vc', n) \<Rightarrow> Inr (st[clock_ref p := clock vc'], n))"

text \<open>\<^verbatim>\<open>get_clock\<close>: a new dictionary with the entries of the clock.\<close>

definition obj_get_clock :: "'p store \<Rightarrow> ('p, 'c, 's) VectorClockProcess \<Rightarrow> 'p store \<times> nat" where
  "obj_get_clock st p = (st @ [st ! clock_ref p], length st)"

text \<open>
  The loop of \<^verbatim>\<open>update\<close> on objects reads the received dictionary in every round, so
  that a received clock that is the clock object itself is covered.
\<close>

definition obj_merge_step :: "nat \<Rightarrow> nat \<Rightarrow> 'p \<Rightarrow> 'p store \<Rightarrow> 'p store" where
  "obj_merge_step cref rref k st = st[cref := merge_step (st ! rref) k (st ! cref)]"

definition obj_update ::
  "'p store \<Rightarrow> ('p, 'c, 's) VectorClockProcess \<Rightarrow> nat \<Rightarrow> (error \<times> 'p store) + 'p store" where
  "obj_update st p rref =
     (let ks = all_processes (st ! clock_ref p) (st ! rref);
          st1 = fold (obj_merge_step (clock_ref p) rref) ks st
      in case obj_increment st1 p of Inl e \<Rightarrow> Inl e | Inr (st2, n) \<Rightarrow> Inr st2)"

definition send_message ::
  "'p store \<Rightarrow> ('p, 'c, 's) VectorClockProcess \<Rightarrow> 'c \<Rightarrow> 'p option \<Rightarrow>
     (error \<times> 'p store) + ('p store \<times> ('p, 'c, nat) message)" where
  "send_message st p message_content target_process =
     (case obj_increment st p of
        Inl e \<Rightarrow> Inl e
      | Inr (st1, n) \<Rightarrow>
          (let (st2, snapshot) = obj_get_clock st1 p
           in Inr (st2, \<lparr>content = Some message_content, sender = pid p,
                         vector_clock = Some snapshot, target = target_process\<rparr>)))"

text \<open>
  \<^verbatim>\<open>receive_message\<close>: the first two \<^verbatim>\<open>print\<close> calls read \<^verbatim>\<open>message['content']\<close> and
  \<^verbatim>\<open>message['vector_clock']\<close> and raise \<^verbatim>\<open>KeyError\<close> on a missing key.
\<close>

definition receive_message ::
  "'p store \<Rightarrow> ('p, 'c, nat) VectorClockProcess \<Rightarrow> ('p, 'c, nat) message \<Rightarrow>
     (error \<times> 'p store) + ('p store \<times> ('p, 'c, nat) VectorClockProcess \<times> bool)" where
  "receive_message st p m =
     (case content m of
        None \<Rightarrow> Inl (KeyError, st)
      | Some c \<Rightarrow>
          (case vector_clock m of
             None \<Rightarrow> Inl (KeyError, st)
           | Some received \<Rightarrow>
               (case obj_update st p received of
                  Inl e \<Rightarrow> Inl e
                | Inr st1 \<Rightarrow>
                    (let (st2, snapshot) = obj_get_clock st1 p;
                         entry = \<lparr>logged_message = m, local_clock = snapshot,
                                  timestamp = length (message_log p)\<rparr>
                     in Inr (st2, p\<lparr>message_log := message_log p @ [entry]\<rparr>, True)))))"

text \<open>
  \<^verbatim>\<open>receive_message\<close> on a message from outside, whose stamp is a dictionary that may
  hold values that are not numbers; \<open>ks\<close> is the order in which the loop of \<^verbatim>\<open>update\<close>
  visits the keys. The result is the store and the process after the call, and the
  error or the value returned: the entry is appended to the log only after \<^verbatim>\<open>update\<close>
  has returned.
\<close>

definition receive_message_raw ::
  "'p list \<Rightarrow> 'p store \<Rightarrow> ('p, 'c, ('p, pyval) dict) VectorClockProcess \<Rightarrow>
     ('p, 'c, ('p, pyval) dict) message \<Rightarrow>
     ('p store \<times> ('p, 'c, ('p, pyval) dict) VectorClockProcess) \<times> (error + bool)" where
  "receive_message_raw ks st p m =
     (case content m of
        None \<Rightarrow> ((st, p), Inl KeyError)
      | Some c \<Rightarrow>
          (case vector_clock m of
             None \<Rightarrow> ((st, p), Inl KeyError)
           | Some received \<Rightarrow>
               (case update_raw ks (vector_clock_of st p) received of
                  (vc', Inl e) \<Rightarrow> ((st[clock_ref p := clock vc'], p), Inl e)
                | (vc', Inr u) \<Rightarrow>
                    (let (st2, snapshot) = obj_get_clock (st[clock_ref p := clock vc']) p;
                         entry = \<lparr>logged_message = m, local_clock = snapshot,
                                  timestamp = length (message_log p)\<rparr>
                     in ((st2, p\<lparr>message_log := message_log p @ [entry]\<rparr>), Inr True)))))"

definition local_event ::
  "'p store \<Rightarrow> ('p, 'c, 's) VectorClockProcess \<Rightarrow> (error \<times> 'p store) + 'p store" where
  "local_event st p =
     (case obj_increment st p of Inl e \<Rightarrow> Inl e | Inr (st1, n) \<Rightarrow> Inr st1)"

definition get_clock_state :: "'p store \<Rightarrow> ('p, 'c, 's) VectorClockProcess \<Rightarrow> 'p store \<times> nat" where
  "get_clock_state st p = obj_get_clock st p"

definition compare_with_other ::
  "'p store \<Rightarrow> ('p, 'c, 's) VectorClockProcess \<Rightarrow> nat \<Rightarrow> int option" where
  "compare_with_other st p other_clock = compare (vector_clock_of st p) (st ! other_clock)"

text \<open>What a process does, one call after the other; a raised error ends the run.\<close>

datatype ('p, 'c) process_op =
  LocalEvent | Send 'c "'p option" | Receive "('p, 'c, nat) message"

fun process_step ::
  "'p store \<times> ('p, 'c, nat) VectorClockProcess \<Rightarrow> ('p, 'c) process_op \<Rightarrow>
     (error \<times> 'p store) + ('p store \<times> ('p, 'c, nat) VectorClockProcess)" where
  "process_step (st, p) LocalEvent =
     (case local_event st p of Inl e \<Rightarrow> Inl e | Inr st' \<Rightarrow> Inr (st', p))"
| "process_step (st, p) (Send c t) =
     (case send_message st p c t of Inl e \<Rightarrow> Inl e | Inr (st', m) \<Rightarrow> Inr (st', p))"
| "process_step (st, p) (Receive m) =
     (case receive_message st p m of Inl e \<Rightarrow> Inl e | Inr (st', p', ok) \<Rightarrow> Inr (st', p'))"

fun process_run ::
  "'p store \<times> ('p, 'c, nat) VectorClockProcess \<Rightarrow> ('p, 'c) process_op list \<Rightarrow>
     (error \<times> 'p store) + ('p store \<times> ('p, 'c, nat) VectorClockProcess)" where
  "process_run s [] = Inr s"
| "process_run s (x # xs) =
     (case process_step s x of Inl e \<Rightarrow> Inl e | Inr s' \<Rightarrow> process_run s' xs)"

text \<open>
  A process in a store: its clock object exists and holds the own entry. A message for
  it: both keys present and the stamp an object of the store.
\<close>

definition process_ok :: "'p store \<Rightarrow> ('p, 'c, 's) VectorClockProcess \<Rightarrow> bool" where
  "process_ok st p =
     (clock_ref p < length st \<and> pid p \<in> set (dict_keys (st ! clock_ref p)))"

definition well_formed :: "'p store \<Rightarrow> ('p, 'c, nat) message \<Rightarrow> bool" where
  "well_formed st m =
     (content m \<noteq> None \<and>
      (case vector_clock m of None \<Rightarrow> False | Some r \<Rightarrow> r < length st))"

definition log_indexed :: "('p, 'c, 's) VectorClockProcess \<Rightarrow> bool" where
  "log_indexed p =
     list_all (\<lambda>i. timestamp (message_log p ! i) = i) [0 ..< length (message_log p)]"

text \<open>
  \<^verbatim>\<open>demo_vector_clocks\<close>: three processes in one store; what it prints at the end are
  the three clocks and the three comparisons (each \<^verbatim>\<open>get_clock_state\<close> of the last lines
  gives an equal copy, taken once here).
\<close>

definition demo_vector_clocks ::
  "(error \<times> string store) +
   ((string, int) dict \<times> (string, int) dict \<times> (string, int) dict) \<times>
   (int option \<times> int option \<times> int option)" where
  "demo_vector_clocks =
     (let (s0, process_a) =
            (new_process [] ''A'' :: string store \<times> (string, string, nat) VectorClockProcess);
          (s1, process_b) = new_process s0 ''B'';
          (s2, process_c) = new_process s1 ''C''
      in case send_message s2 process_a ''Hello from A'' (Some ''B'') of
           Inl e \<Rightarrow> Inl e
         | Inr (s3, message1) \<Rightarrow>
      (case receive_message s3 process_b message1 of
           Inl e \<Rightarrow> Inl e
         | Inr (s4, process_b1, ok1) \<Rightarrow>
      (case send_message s4 process_b1 ''Hello from B'' (Some ''C'') of
           Inl e \<Rightarrow> Inl e
         | Inr (s5, message2) \<Rightarrow>
      (case receive_message s5 process_c message2 of
           Inl e \<Rightarrow> Inl e
         | Inr (s6, process_c1, ok2) \<Rightarrow>
      (case send_message s6 process_a ''Second message from A'' (Some ''C'') of
           Inl e \<Rightarrow> Inl e
         | Inr (s7, message3) \<Rightarrow>
      (case receive_message s7 process_c1 message3 of
           Inl e \<Rightarrow> Inl e
         | Inr (s8, process_c2, ok3) \<Rightarrow>
      (case local_event s8 process_b1 of
           Inl e \<Rightarrow> Inl e
         | Inr s9 \<Rightarrow>
      (let (s10, state_a) = get_clock_state s9 process_a;
           (s11, state_b) = get_clock_state s10 process_b1;
           (s12, state_c) = get_clock_state s11 process_c2
       in Inr ((s12 ! state_a, s12 ! state_b, s12 ! state_c),
               (compare_with_other s12 process_a state_b,
                compare_with_other s12 process_b1 state_c,
                compare_with_other s12 process_a state_c))))))))))"

section \<open>The class \<^verbatim>\<open>VectorClock\<close> of \<^verbatim>\<open>vector_process.py\<close>\<close>

text \<open>
  The process that talks XML-RPC. The lock, the server and the threads are left out: the
  methods are modelled as they run one at a time. A message arrives as a dictionary that
  may lack the key \<^verbatim>\<open>'clock'\<close> and whose counters may be anything.
\<close>

record 'p VectorClock_rpc =
  port :: 'p
  clock_rpc :: "('p, int) dict"

record 'p message_rpc =
  sender_port :: "'p option"
  clock_field :: "('p, pyval) dict option"

text \<open>\<^verbatim>\<open>{p: 0 for p in set(peers) | {port}}\<close>\<close>

definition init_rpc :: "'p \<Rightarrow> 'p list \<Rightarrow> 'p VectorClock_rpc" where
  "init_rpc prt peers =
     \<lparr>port = prt, clock_rpc = map (\<lambda>p. (p, 0)) (remdups (peers @ [prt]))\<rparr>"

text \<open>
  The loop over \<^verbatim>\<open>incoming.items()\<close>, in the order of the dictionary: the clock as the
  loop leaves it, and the error when \<^verbatim>\<open>max\<close> raised.
\<close>

fun merge_incoming ::
  "('p, pyval) dict \<Rightarrow> ('p, int) dict \<Rightarrow> ('p, int) dict \<times> error option" where
  "merge_incoming [] c = (c, None)"
| "merge_incoming ((k, val) # rest) c =
     (case val of
        PyInt v \<Rightarrow> merge_incoming rest (dict_set c k (max (dict_get c k 0) v))
      | NonNumeric \<Rightarrow> (c, Some TypeError))"

text \<open>\<^verbatim>\<open>self.clock[self.port] = self.clock.get(self.port, 0) + 1\<close>\<close>

definition increment_clock :: "'p VectorClock_rpc \<Rightarrow> 'p VectorClock_rpc" where
  "increment_clock vc =
     vc\<lparr>clock_rpc := dict_set (clock_rpc vc) (port vc) (dict_get (clock_rpc vc) (port vc) 0 + 1)\<rparr>"

definition receive_message_rpc ::
  "'p VectorClock_rpc \<Rightarrow> 'p message_rpc \<Rightarrow> 'p VectorClock_rpc \<times> (error + bool)" where
  "receive_message_rpc vc message =
     (let incoming = (case clock_field message of None \<Rightarrow> [] | Some d \<Rightarrow> d)
      in case merge_incoming incoming (clock_rpc vc) of
           (c, Some e) \<Rightarrow> (vc\<lparr>clock_rpc := c\<rparr>, Inl e)
         | (c, None) \<Rightarrow> (increment_clock (vc\<lparr>clock_rpc := c\<rparr>), Inr True))"

text \<open>
  \<^verbatim>\<open>send_message\<close> builds the message from a copy of the clock and hands it to the
  remote server; the clock is not touched.
\<close>

definition send_message_rpc :: "'p VectorClock_rpc \<Rightarrow> 'p VectorClock_rpc \<times> 'p message_rpc" where
  "send_message_rpc vc =
     (vc, \<lparr>sender_port = Some (port vc), clock_field = Some (ints (clock_rpc vc))\<rparr>)"

section \<open>Facts about dictionaries\<close>

lemma dict_keys_set: "set (dict_keys (dict_set d k v)) = insert k (set (dict_keys d))"
  using AList.dom_update [of k v d] by (simp add: dict_keys_def dict_set_def)

lemma dict_set_distinct:
  "distinct (dict_keys d) \<Longrightarrow> distinct (dict_keys (dict_set d k v))"
  by (simp add: dict_keys_def dict_set_def AList.distinct_update)

lemma map_of_dict_set: "map_of (dict_set d k v) = (map_of d)(k \<mapsto> v)"
  by (simp add: dict_set_def AList.update_conv')

lemma dict_get_dict_set:
  "dict_get (dict_set d k v) k' dflt = (if k' = k then v else dict_get d k' dflt)"
  by (simp add: dict_get_def map_of_dict_set)

lemma map_of_None_keys: "map_of d k = None \<longleftrightarrow> k \<notin> set (dict_keys d)"
  by (simp add: dict_keys_def map_of_eq_None_iff)

lemma dict_eq_iff: "dict_eq a b \<longleftrightarrow> map_of a = map_of b"
proof
  assume eq: "dict_eq a b"
  show "map_of a = map_of b"
  proof
    fix k
    show "map_of a k = map_of b k"
    proof (cases "k \<in> set (dict_keys a) \<union> set (dict_keys b)")
      case True
      with eq show ?thesis by (auto simp: dict_eq_def list_all_iff)
    next
      case False
      then have "map_of a k = None" and "map_of b k = None"
        by (simp_all add: map_of_None_keys)
      then show ?thesis by simp
    qed
  qed
next
  assume "map_of a = map_of b"
  then show "dict_eq a b" by (simp add: dict_eq_def list_all_iff)
qed

lemma dict_eq_keys: "dict_eq a b \<Longrightarrow> set (dict_keys a) = set (dict_keys b)"
proof -
  assume "dict_eq a b"
  then have "dom (map_of a) = dom (map_of b)" by (simp add: dict_eq_iff)
  then show ?thesis by (simp add: dom_map_of_conv_image_fst dict_keys_def)
qed

section \<open>The loops of \<^verbatim>\<open>update\<close> and \<^verbatim>\<open>compare\<close>\<close>

lemma map_of_merge_step:
  "map_of (merge_step r k c) = (map_of c)(k \<mapsto> max (dict_get c k 0) (dict_get r k 0))"
  by (simp add: merge_step_def map_of_dict_set Let_def)

lemma dict_get_merge_step:
  "dict_get (merge_step r k c) k' 0 =
     (if k' = k then max (dict_get c k 0) (dict_get r k 0) else dict_get c k' 0)"
  by (simp add: merge_step_def dict_get_dict_set Let_def)

lemma update_loop_keys:
  "set (dict_keys (update_loop ks c r)) = set ks \<union> set (dict_keys c)"
  by (induction ks arbitrary: c) (auto simp: update_loop_def merge_step_def dict_keys_set)

lemma map_of_update_loop:
  "map_of (update_loop ks c r) k =
     (if k \<in> set ks then Some (max (dict_get c k 0) (dict_get r k 0)) else map_of c k)"
proof (induction ks arbitrary: c)
  case Nil
  show ?case by (simp add: update_loop_def)
next
  case (Cons x xs)
  have step: "update_loop (x # xs) c r = update_loop xs (merge_step r x c) r"
    by (simp add: update_loop_def)
  show ?case
    unfolding step Cons.IH
    by (auto simp: dict_get_merge_step map_of_merge_step)
qed

lemma update_loop_order:
  "set ks = set ks' \<Longrightarrow> map_of (update_loop ks c r) = map_of (update_loop ks' c r)"
  by (rule ext) (simp add: map_of_update_loop)

lemma all_processes_set: "set (all_processes a b) = set (dict_keys a) \<union> set (dict_keys b)"
  by (simp add: all_processes_def)

lemma dict_get_absent: "k \<notin> set (dict_keys d) \<Longrightarrow> dict_get d k dflt = dflt"
  by (simp add: dict_get_def map_of_None_keys [symmetric])

lemma dict_get_present: "k \<in> set (dict_keys d) \<Longrightarrow> map_of d k = Some (dict_get d k dflt)"
  by (cases "map_of d k") (auto simp: dict_get_def map_of_None_keys)

lemma compare_step_flags:
  "compare_step a b k (l, g) =
     (l \<and> dict_get a k 0 \<le> dict_get b k 0, g \<and> dict_get b k 0 \<le> dict_get a k 0)"
  by (auto simp: compare_step_def Let_def)

lemma compare_loop_flags:
  "fold (compare_step a b) ks (l, g) =
     (l \<and> (\<forall>k\<in>set ks. dict_get a k 0 \<le> dict_get b k 0),
      g \<and> (\<forall>k\<in>set ks. dict_get b k 0 \<le> dict_get a k 0))"
proof (induction ks arbitrary: l g)
  case Nil
  show ?case by simp
next
  case (Cons x xs)
  have "fold (compare_step a b) (x # xs) (l, g) =
          fold (compare_step a b) xs (compare_step a b x (l, g))"
    by simp
  also have "\<dots> = fold (compare_step a b) xs
      (l \<and> dict_get a x 0 \<le> dict_get b x 0, g \<and> dict_get b x 0 \<le> dict_get a x 0)"
    by (simp only: compare_step_flags)
  finally show ?case
    by (auto simp: Cons.IH)
qed

lemma merged_keys: "set (dict_keys (merged c r)) = set (dict_keys c) \<union> set (dict_keys r)"
  by (auto simp: merged_def update_loop_keys all_processes_set)

lemma map_of_merged:
  "map_of (merged c r) k =
     (if k \<in> set (dict_keys c) \<union> set (dict_keys r)
      then Some (max (dict_get c k 0) (dict_get r k 0)) else None)"
  by (simp add: merged_def map_of_update_loop all_processes_set map_of_None_keys)

lemma dict_get_merged:
  "dict_get (merged c r) k 0 = max (dict_get c k 0) (dict_get r k 0)"
  by (simp add: dict_get_def [of "merged c r"] map_of_merged dict_get_absent)

lemma increment_present:
  "process_id vc \<in> set (dict_keys (clock vc)) \<Longrightarrow>
     increment vc =
       Inr (vc\<lparr>clock := dict_set (clock vc) (process_id vc) (dict_get (clock vc) (process_id vc) 0 + 1)\<rparr>,
            dict_get (clock vc) (process_id vc) 0 + 1)"
  by (simp add: increment_def dict_get_present [where dflt = 0])

lemma update_present:
  assumes "process_id vc \<in> set (dict_keys (clock vc))"
  shows "update vc r =
     Inr (vc\<lparr>clock := dict_set (merged (clock vc) r) (process_id vc)
                         (dict_get (merged (clock vc) r) (process_id vc) 0 + 1)\<rparr>)"
proof -
  have "process_id vc \<in> set (dict_keys (merged (clock vc) r))"
    using assms by (simp add: merged_keys)
  then show ?thesis
    by (simp add: update_def increment_present)
qed

lemma compare_result:
  "compare vc b =
     (if map_of (clock vc) = map_of b then None
      else if (\<forall>k\<in>set (dict_keys (clock vc)) \<union> set (dict_keys b). dict_get (clock vc) k 0 \<le> dict_get b k 0)
            \<and> \<not> (\<forall>k\<in>set (dict_keys (clock vc)) \<union> set (dict_keys b). dict_get b k 0 \<le> dict_get (clock vc) k 0)
           then Some (- 1)
      else if (\<forall>k\<in>set (dict_keys (clock vc)) \<union> set (dict_keys b). dict_get b k 0 \<le> dict_get (clock vc) k 0)
            \<and> \<not> (\<forall>k\<in>set (dict_keys (clock vc)) \<union> set (dict_keys b). dict_get (clock vc) k 0 \<le> dict_get b k 0)
           then Some 1
      else Some 0)"
  by (simp add: compare_def dict_eq_iff compare_loop_flags all_processes_set Let_def)

lemma map_of_eq_dict_get: "map_of a = map_of b \<Longrightarrow> dict_get a k d = dict_get b k d"
  by (simp add: dict_get_def)

lemma identical_iff:
  "map_of a = map_of b \<longleftrightarrow>
     set (dict_keys a) = set (dict_keys b) \<and> (\<forall>k\<in>set (dict_keys a). map_of a k = map_of b k)"
proof
  assume "map_of a = map_of b"
  then show "set (dict_keys a) = set (dict_keys b) \<and> (\<forall>k\<in>set (dict_keys a). map_of a k = map_of b k)"
    using dict_eq_keys [of a b] by (simp add: dict_eq_iff)
next
  assume h: "set (dict_keys a) = set (dict_keys b) \<and> (\<forall>k\<in>set (dict_keys a). map_of a k = map_of b k)"
  show "map_of a = map_of b"
  proof
    fix k
    show "map_of a k = map_of b k"
    proof (cases "k \<in> set (dict_keys a)")
      case True
      with h show ?thesis by simp
    next
      case False
      with h have "map_of a k = None" and "map_of b k = None"
        by (simp_all add: map_of_None_keys)
      then show ?thesis by simp
    qed
  qed
qed

lemma differ_iff:
  "(\<exists>k\<in>K. (f k :: int) \<noteq> g k) \<longleftrightarrow> \<not> ((\<forall>k\<in>K. f k \<le> g k) \<and> (\<forall>k\<in>K. g k \<le> f k))"
proof
  assume "\<exists>k\<in>K. f k \<noteq> g k"
  then obtain k where "k \<in> K" and "f k \<noteq> g k" by blast
  then have "k \<in> K" and "f k < g k \<or> g k < f k" by auto
  then show "\<not> ((\<forall>k\<in>K. f k \<le> g k) \<and> (\<forall>k\<in>K. g k \<le> f k))"
    by (metis not_le)
next
  assume "\<not> ((\<forall>k\<in>K. f k \<le> g k) \<and> (\<forall>k\<in>K. g k \<le> f k))"
  then obtain k where "k \<in> K" and "\<not> f k \<le> g k \<or> \<not> g k \<le> f k" by blast
  then have "k \<in> K" and "f k \<noteq> g k" by auto
  then show "\<exists>k\<in>K. f k \<noteq> g k" by blast
qed

lemma compare_before_iff:
  "compare vc b = Some (- 1) \<longleftrightarrow>
     (\<forall>k\<in>set (dict_keys (clock vc)) \<union> set (dict_keys b). dict_get (clock vc) k 0 \<le> dict_get b k 0) \<and>
     (\<exists>k\<in>set (dict_keys (clock vc)) \<union> set (dict_keys b). dict_get (clock vc) k 0 \<noteq> dict_get b k 0)"
proof (cases "map_of (clock vc) = map_of b")
  case True
  then have "\<not> (\<exists>k\<in>set (dict_keys (clock vc)) \<union> set (dict_keys b).
      dict_get (clock vc) k 0 \<noteq> dict_get b k 0)"
    by (simp add: map_of_eq_dict_get [of "clock vc" b])
  with True show ?thesis by (simp add: compare_result)
next
  case False
  then show ?thesis
    unfolding differ_iff by (auto simp: compare_result)
qed

lemma compare_after_iff:
  "compare vc b = Some 1 \<longleftrightarrow>
     (\<forall>k\<in>set (dict_keys (clock vc)) \<union> set (dict_keys b). dict_get b k 0 \<le> dict_get (clock vc) k 0) \<and>
     (\<exists>k\<in>set (dict_keys (clock vc)) \<union> set (dict_keys b). dict_get (clock vc) k 0 \<noteq> dict_get b k 0)"
proof (cases "map_of (clock vc) = map_of b")
  case True
  then have "\<not> (\<exists>k\<in>set (dict_keys (clock vc)) \<union> set (dict_keys b).
      dict_get (clock vc) k 0 \<noteq> dict_get b k 0)"
    by (simp add: map_of_eq_dict_get [of "clock vc" b])
  with True show ?thesis by (simp add: compare_result)
next
  case False
  then show ?thesis
    unfolding differ_iff by (auto simp: compare_result)
qed

lemma compare_identical_iff:
  "compare vc b = None \<longleftrightarrow>
     set (dict_keys (clock vc)) = set (dict_keys b) \<and>
     (\<forall>k\<in>set (dict_keys (clock vc)). map_of (clock vc) k = map_of b k)"
  using identical_iff [of "clock vc" b] by (simp add: compare_result)

lemma compare_four:
  "compare vc b = None \<or> compare vc b = Some (- 1) \<or> compare vc b = Some 1 \<or>
   compare vc b = Some 0"
  by (simp add: compare_result)

lemma update_loop_same:
  "\<forall>k\<in>set ks. k \<in> set (dict_keys c) \<Longrightarrow> update_loop ks c c = c"
proof (induction ks)
  case Nil
  show ?case by (simp add: update_loop_def)
next
  case (Cons x xs)
  then have "x \<in> set (dict_keys c)" by simp
  then have "map_of c x = Some (dict_get c x 0)" by (rule dict_get_present)
  then have "merge_step c x c = c"
    by (simp add: merge_step_def dict_set_def AList.update_triv)
  moreover have "update_loop (x # xs) c c = fold (merge_step c) xs (merge_step c x c)"
    by (simp add: update_loop_def)
  ultimately show ?case using Cons by (simp add: update_loop_def)
qed

section \<open>The invariant of a clock object\<close>

lemma nonneg_iff: "nonneg d \<longleftrightarrow> (\<forall>kv\<in>set d. 0 \<le> snd kv)"
  by (simp add: nonneg_def list_all_iff)

lemma nonneg_dict_get: "nonneg d \<Longrightarrow> 0 \<le> dict_get d k 0"
proof (cases "map_of d k")
  case None
  then show ?thesis by (simp add: dict_get_def)
next
  case (Some v)
  assume "nonneg d"
  moreover from Some have "(k, v) \<in> set d" by (rule map_of_SomeD)
  ultimately have "0 \<le> v" by (fastforce simp: nonneg_iff)
  with Some show ?thesis by (simp add: dict_get_def)
qed

lemma nonneg_dict_set: "nonneg d \<Longrightarrow> 0 \<le> v \<Longrightarrow> nonneg (dict_set d k v)"
  unfolding dict_set_def nonneg_iff
  by (induction d) auto

lemma nonneg_merge_step: "nonneg c \<Longrightarrow> nonneg (merge_step r k c)"
proof -
  assume nn: "nonneg c"
  then have "0 \<le> dict_get c k 0" by (rule nonneg_dict_get)
  then have "0 \<le> max (dict_get c k 0) (dict_get r k 0)" by simp
  with nn show ?thesis by (simp add: merge_step_def Let_def nonneg_dict_set)
qed

lemma nonneg_update_loop: "nonneg c \<Longrightarrow> nonneg (update_loop ks c r)"
  unfolding update_loop_def
  by (induction ks arbitrary: c) (simp_all add: nonneg_merge_step)

lemma nonneg_merged: "nonneg c \<Longrightarrow> nonneg (merged c r)"
  by (simp add: merged_def nonneg_update_loop)

lemma clock_le_refl: "clock_le v v"
  by (simp add: clock_le_def)

lemma clock_le_trans: "clock_le u v \<Longrightarrow> clock_le v w \<Longrightarrow> clock_le u w"
proof -
  assume uv: "clock_le u v" and vw: "clock_le v w"
  have "process_id w = process_id u" using uv vw by (simp add: clock_le_def)
  moreover have "\<forall>k\<in>set (dict_keys (clock u)).
      k \<in> set (dict_keys (clock w)) \<and> dict_get (clock u) k 0 \<le> dict_get (clock w) k 0"
  proof
    fix k assume k: "k \<in> set (dict_keys (clock u))"
    with uv have kv: "k \<in> set (dict_keys (clock v))"
      and le1: "dict_get (clock u) k 0 \<le> dict_get (clock v) k 0"
      by (simp_all add: clock_le_def)
    with vw have "k \<in> set (dict_keys (clock w))"
      and "dict_get (clock v) k 0 \<le> dict_get (clock w) k 0"
      by (simp_all add: clock_le_def)
    with le1 show "k \<in> set (dict_keys (clock w)) \<and> dict_get (clock u) k 0 \<le> dict_get (clock w) k 0"
      by simp
  qed
  ultimately show ?thesis by (simp add: clock_le_def)
qed

lemma increment_inv:
  assumes "clock_inv vc"
  shows "\<exists>vc' n. increment vc = Inr (vc', n) \<and> clock_inv vc' \<and> clock_le vc vc'"
proof -
  let ?p = "process_id vc"
  let ?v = "dict_get (clock vc) ?p 0"
  let ?vc' = "vc\<lparr>clock := dict_set (clock vc) ?p (?v + 1)\<rparr>"
  from assms have own: "?p \<in> set (dict_keys (clock vc))" and nn: "nonneg (clock vc)"
    by (simp_all add: clock_inv_def)
  have inc: "increment vc = Inr (?vc', ?v + 1)"
    using own by (rule increment_present)
  have "0 \<le> ?v" using nn by (rule nonneg_dict_get)
  then have "nonneg (clock ?vc')" using nn by (simp add: nonneg_dict_set)
  then have "clock_inv ?vc'" by (simp add: clock_inv_def dict_keys_set)
  moreover have "clock_le vc ?vc'"
    by (simp add: clock_le_def dict_keys_set dict_get_dict_set)
  ultimately show ?thesis using inc by blast
qed

lemma update_inv:
  assumes "clock_inv vc"
  shows "\<exists>vc'. update vc r = Inr vc' \<and> clock_inv vc' \<and> clock_le vc vc'"
proof -
  let ?m = "vc\<lparr>clock := merged (clock vc) r\<rparr>"
  from assms have "clock_inv ?m"
    by (simp add: clock_inv_def merged_keys nonneg_merged)
  then obtain vc' n where inc: "increment ?m = Inr (vc', n)"
    and inv: "clock_inv vc'" and le: "clock_le ?m vc'"
    using increment_inv by blast
  have "clock_le vc ?m"
    by (simp add: clock_le_def merged_keys dict_get_merged)
  then have "clock_le vc vc'" using le by (rule clock_le_trans)
  moreover have "update vc r = Inr vc'" using inc by (simp add: update_def)
  ultimately show ?thesis using inv by blast
qed

lemma apply_op_inv:
  assumes "clock_inv vc"
  shows "\<exists>vc'. apply_op vc x = Inr vc' \<and> clock_inv vc' \<and> clock_le vc vc'"
proof (cases x)
  case Increment
  from increment_inv [OF assms] obtain vc' n where "increment vc = Inr (vc', n)"
    and "clock_inv vc'" and "clock_le vc vc'" by blast
  with Increment show ?thesis by simp
next
  case (Merge r)
  with update_inv [OF assms, of r] show ?thesis by simp
qed

lemma apply_ops_inv:
  "clock_inv vc \<Longrightarrow> \<exists>vc'. apply_ops vc xs = Inr vc' \<and> clock_inv vc' \<and> clock_le vc vc'"
proof (induction xs arbitrary: vc)
  case Nil
  then show ?case by (simp add: clock_le_refl)
next
  case (Cons x xs)
  from apply_op_inv [OF Cons.prems, of x] obtain v1 where
    s1: "apply_op vc x = Inr v1" and i1: "clock_inv v1" and l1: "clock_le vc v1" by blast
  from Cons.IH [OF i1] obtain v2 where
    s2: "apply_ops v1 xs = Inr v2" and i2: "clock_inv v2" and l2: "clock_le v1 v2" by blast
  from l1 l2 have "clock_le vc v2" by (rule clock_le_trans)
  with s1 s2 i2 show ?case by simp
qed

lemma apply_ops_append:
  "apply_ops vc (xs @ ys) =
     (case apply_ops vc xs of Inl e \<Rightarrow> Inl e | Inr vc' \<Rightarrow> apply_ops vc' ys)"
  by (induction xs arbitrary: vc) (auto split: sum.splits)

lemma init_inv:
  assumes "case initial_clock of None \<Rightarrow> True | Some d \<Rightarrow> nonneg d"
  shows "clock_inv (init p initial_clock)"
proof -
  let ?c = "case initial_clock of None \<Rightarrow> [] | Some d \<Rightarrow> if d = [] then [] else d"
  have nn: "nonneg ?c"
    using assms by (auto simp: nonneg_def split: option.splits)
  show ?thesis
    using nn by (simp add: init_def clock_inv_def Let_def dict_keys_set nonneg_dict_set)
qed

lemma init_own_entry:
  "process_id (init p ic) = p \<and>
   (p \<notin> set (dict_keys (case ic of None \<Rightarrow> [] | Some d \<Rightarrow> d)) \<longrightarrow>
      map_of (clock (init p ic)) p = Some 0)"
  by (auto simp: init_def Let_def map_of_dict_set dict_keys_def split: option.splits)

section \<open>Clocks that the constructors and the methods can reach\<close>

text \<open>
  The own entry is in every clock from \<^verbatim>\<open>__init__\<close> on (see also \<open>update_Inr_own\<close>); the
  clock of \<^verbatim>\<open>vector_process.py\<close> starts with distinct keys, its own port among them, and
  zeros, and whatever message arrives, it keeps its port and has no negative counter.
\<close>

lemma init_has_own_entry: "process_id (init p ic) \<in> set (dict_keys (clock (init p ic)))"
  by (simp add: init_def Let_def dict_keys_set)

lemma nonneg_merge_incoming:
  "nonneg c \<Longrightarrow> nonneg (fst (merge_incoming d c))"
proof (induction d arbitrary: c)
  case Nil
  then show ?case by simp
next
  case (Cons kv d)
  obtain k val where kv: "kv = (k, val)" by (cases kv)
  show ?case
  proof (cases val)
    case (PyInt v)
    from Cons.prems have "0 \<le> dict_get c k 0" by (rule nonneg_dict_get)
    then have "0 \<le> max (dict_get c k 0) v" by simp
    with Cons.prems have "nonneg (dict_set c k (max (dict_get c k 0) v))"
      by (simp add: nonneg_dict_set)
    from Cons.IH [OF this] kv PyInt show ?thesis by simp
  next
    case NonNumeric
    with kv Cons.prems show ?thesis by simp
  qed
qed

lemma keys_merge_incoming:
  "set (dict_keys c) \<subseteq> set (dict_keys (fst (merge_incoming d c)))"
proof (induction d arbitrary: c)
  case Nil
  show ?case by simp
next
  case (Cons kv d)
  obtain k val where kv: "kv = (k, val)" by (cases kv)
  show ?case
  proof (cases val)
    case (PyInt v)
    have "set (dict_keys c) \<subseteq> set (dict_keys (dict_set c k (max (dict_get c k 0) v)))"
      by (auto simp: dict_keys_set)
    also have "\<dots> \<subseteq> set (dict_keys (fst (merge_incoming d (dict_set c k (max (dict_get c k 0) v)))))"
      by (rule Cons.IH)
    finally show ?thesis using kv PyInt by simp
  next
    case NonNumeric
    with kv show ?thesis by simp
  qed
qed

lemma init_rpc_inv:
  "port (init_rpc prt peers) \<in> set (dict_keys (clock_rpc (init_rpc prt peers))) \<and>
   nonneg (clock_rpc (init_rpc prt peers)) \<and>
   distinct (dict_keys (clock_rpc (init_rpc prt peers)))"
  by (auto simp: init_rpc_def dict_keys_def nonneg_def list_all_iff comp_def distinct_map inj_on_def)

lemma increment_clock_inv:
  assumes "nonneg (clock_rpc w)"
  shows "port (increment_clock w) = port w \<and>
     port w \<in> set (dict_keys (clock_rpc (increment_clock w))) \<and>
     nonneg (clock_rpc (increment_clock w))"
proof -
  from assms have "0 \<le> dict_get (clock_rpc w) (port w) 0" by (rule nonneg_dict_get)
  then have "0 \<le> dict_get (clock_rpc w) (port w) 0 + 1" by simp
  with assms show ?thesis
    by (simp add: increment_clock_def dict_keys_set nonneg_dict_set)
qed

lemma receive_message_rpc_inv:
  assumes "port w \<in> set (dict_keys (clock_rpc w))" and "nonneg (clock_rpc w)"
  shows "port (fst (receive_message_rpc w rm)) = port w \<and>
     port w \<in> set (dict_keys (clock_rpc (fst (receive_message_rpc w rm)))) \<and>
     nonneg (clock_rpc (fst (receive_message_rpc w rm)))"
proof -
  let ?d = "case clock_field rm of None \<Rightarrow> [] | Some d \<Rightarrow> d"
  obtain c err where m: "merge_incoming ?d (clock_rpc w) = (c, err)"
    by (cases "merge_incoming ?d (clock_rpc w)")
  from nonneg_merge_incoming [OF assms(2), of ?d] m have nn: "nonneg c" by simp
  from keys_merge_incoming [of "clock_rpc w" ?d] m assms(1)
  have own: "port w \<in> set (dict_keys c)" by auto
  show ?thesis
  proof (cases err)
    case None
    with m have "fst (receive_message_rpc w rm) = increment_clock (w\<lparr>clock_rpc := c\<rparr>)"
      by (simp add: receive_message_rpc_def)
    with increment_clock_inv [of "w\<lparr>clock_rpc := c\<rparr>"] nn show ?thesis by simp
  next
    case (Some e)
    with m have "fst (receive_message_rpc w rm) = w\<lparr>clock_rpc := c\<rparr>"
      by (simp add: receive_message_rpc_def)
    with nn own show ?thesis by simp
  qed
qed

section \<open>Comparing clocks\<close>

text \<open>
  C2. \<^verbatim>\<open>compare\<close> returns \<^verbatim>\<open>-1\<close> (BEFORE) exactly when the own clock is at most the
  other one at every key of the union of the keys, a missing key read as 0, and the two
  differ at some key of the union; \<^verbatim>\<open>1\<close> (AFTER) exactly when the same holds the other way
  round; \<^verbatim>\<open>None\<close> (EQUAL) exactly when the two dictionaries have the same keys with the
  same values; and \<^verbatim>\<open>0\<close> (CONCURRENT) in every other case. The inequality of the first
  two cases is the one of the counters, read like the order beside it; the identity of
  the third is the one of the dictionaries.
\<close>

theorem compare_classification:
  "(compare vc b = Some (- 1) \<longleftrightarrow>
      (\<forall>k\<in>set (dict_keys (clock vc)) \<union> set (dict_keys b). dict_get (clock vc) k 0 \<le> dict_get b k 0) \<and>
      (\<exists>k\<in>set (dict_keys (clock vc)) \<union> set (dict_keys b). dict_get (clock vc) k 0 \<noteq> dict_get b k 0)) \<and>
   (compare vc b = Some 1 \<longleftrightarrow>
      (\<forall>k\<in>set (dict_keys (clock vc)) \<union> set (dict_keys b). dict_get b k 0 \<le> dict_get (clock vc) k 0) \<and>
      (\<exists>k\<in>set (dict_keys (clock vc)) \<union> set (dict_keys b). dict_get (clock vc) k 0 \<noteq> dict_get b k 0)) \<and>
   (compare vc b = None \<longleftrightarrow>
      set (dict_keys (clock vc)) = set (dict_keys b) \<and>
      (\<forall>k\<in>set (dict_keys (clock vc)). map_of (clock vc) k = map_of b k)) \<and>
   (compare vc b = Some 0 \<longleftrightarrow>
      compare vc b \<noteq> Some (- 1) \<and> compare vc b \<noteq> Some 1 \<and> compare vc b \<noteq> None)"
proof -
  have rest: "compare vc b = Some 0 \<longleftrightarrow>
      compare vc b \<noteq> Some (- 1) \<and> compare vc b \<noteq> Some 1 \<and> compare vc b \<noteq> None"
    using compare_four [of vc b] by auto
  show ?thesis
    using compare_before_iff [of vc b] compare_after_iff [of vc b]
      compare_identical_iff [of vc b] rest
    by blast
qed

theorem compare_classification_witness:
  "compare \<lparr>process_id = ''A'', clock = [(''A'', 1)]\<rparr> [(''A'', 1), (''B'', 1)] = Some (- 1) \<and>
   compare \<lparr>process_id = ''C'', clock = [(''A'', 1), (''B'', 2), (''C'', 1)]\<rparr> [(''A'', 1)] = Some 1 \<and>
   compare \<lparr>process_id = ''A'', clock = [(''A'', 1), (''B'', 0)]\<rparr> [(''B'', 0), (''A'', 1)] = None \<and>
   compare \<lparr>process_id = ''A'', clock = [(''A'', 1)]\<rparr> [(''B'', 1)] = Some 0"
proof -
  have before: "compare \<lparr>process_id = ''A'', clock = [(''A'', 1)]\<rparr> [(''A'', 1), (''B'', 1)] = Some (- 1)"
    using compare_classification [of "\<lparr>process_id = ''A'', clock = [(''A'', 1)]\<rparr>" "[(''A'', 1), (''B'', 1)]"]
    by (simp add: dict_keys_def dict_get_def)
  have after: "compare \<lparr>process_id = ''C'', clock = [(''A'', 1), (''B'', 2), (''C'', 1)]\<rparr> [(''A'', 1)] = Some 1"
    using compare_classification [of "\<lparr>process_id = ''C'', clock = [(''A'', 1), (''B'', 2), (''C'', 1)]\<rparr>" "[(''A'', 1)]"]
    by (simp add: dict_keys_def dict_get_def)
  have same: "compare \<lparr>process_id = ''A'', clock = [(''A'', 1), (''B'', 0)]\<rparr> [(''B'', 0), (''A'', 1)] = None"
    using compare_classification [of "\<lparr>process_id = ''A'', clock = [(''A'', 1), (''B'', 0)]\<rparr>" "[(''B'', 0), (''A'', 1)]"]
    by (simp add: dict_keys_def insert_commute)
  note c = compare_classification [of "\<lparr>process_id = ''A'', clock = [(''A'', 1)]\<rparr>" "[(''B'', 1)]"]
  have n1: "compare \<lparr>process_id = ''A'', clock = [(''A'', 1)]\<rparr> [(''B'', 1)] \<noteq> Some (- 1)"
    using c by (simp add: dict_keys_def dict_get_def)
  have n2: "compare \<lparr>process_id = ''A'', clock = [(''A'', 1)]\<rparr> [(''B'', 1)] \<noteq> Some 1"
    using c by (simp add: dict_keys_def dict_get_def)
  have n3: "compare \<lparr>process_id = ''A'', clock = [(''A'', 1)]\<rparr> [(''B'', 1)] \<noteq> None"
    using c by (simp add: dict_keys_def)
  have conc: "compare \<lparr>process_id = ''A'', clock = [(''A'', 1)]\<rparr> [(''B'', 1)] = Some 0"
    using c n1 n2 n3 by blast
  from before after same conc show ?thesis by blast
qed

text \<open>
  C3. For all clocks exactly one of before, after, concurrent and equal holds;
  \<^verbatim>\<open>compare\<close> of A with B returns BEFORE exactly when \<^verbatim>\<open>compare\<close> of B with A returns
  AFTER; and \<^verbatim>\<open>compare\<close> of a clock with itself returns EQUAL.
\<close>

theorem compare_partial_order:
  "((happens_before va b \<and> \<not> happens_after va b \<and> \<not> is_concurrent va b \<and> compare va b \<noteq> None) \<or>
    (\<not> happens_before va b \<and> happens_after va b \<and> \<not> is_concurrent va b \<and> compare va b \<noteq> None) \<or>
    (\<not> happens_before va b \<and> \<not> happens_after va b \<and> is_concurrent va b \<and> compare va b \<noteq> None) \<or>
    (\<not> happens_before va b \<and> \<not> happens_after va b \<and> \<not> is_concurrent va b \<and> compare va b = None)) \<and>
   (compare va (clock vb) = Some (- 1) \<longleftrightarrow> compare vb (clock va) = Some 1) \<and>
   compare va (clock va) = None"
proof -
  have sym: "compare va (clock vb) = Some (- 1) \<longleftrightarrow> compare vb (clock va) = Some 1"
    unfolding compare_before_iff [of va "clock vb"] compare_after_iff [of vb "clock va"]
    by (simp add: Un_commute eq_commute)
  have refl: "compare va (clock va) = None"
    by (simp add: compare_result)
  from compare_four [of va b]
  have "(happens_before va b \<and> \<not> happens_after va b \<and> \<not> is_concurrent va b \<and> compare va b \<noteq> None) \<or>
    (\<not> happens_before va b \<and> happens_after va b \<and> \<not> is_concurrent va b \<and> compare va b \<noteq> None) \<or>
    (\<not> happens_before va b \<and> \<not> happens_after va b \<and> is_concurrent va b \<and> compare va b \<noteq> None) \<or>
    (\<not> happens_before va b \<and> \<not> happens_after va b \<and> \<not> is_concurrent va b \<and> compare va b = None)"
    unfolding happens_before_def happens_after_def is_concurrent_def by auto
  with sym refl show ?thesis by blast
qed

theorem compare_partial_order_witness:
  "happens_before \<lparr>process_id = ''A'', clock = [(''A'', 1)]\<rparr> [(''A'', 1), (''B'', 1)] \<and>
   compare \<lparr>process_id = ''B'', clock = [(''A'', 1), (''B'', 1)]\<rparr> [(''A'', 1)] = Some 1 \<and>
   compare \<lparr>process_id = ''A'', clock = [(''A'', 1)]\<rparr> [(''A'', 1)] = None"
proof -
  have b: "compare \<lparr>process_id = ''A'', clock = [(''A'', 1)]\<rparr> [(''A'', 1), (''B'', 1)] = Some (- 1)"
    by (simp add: compare_def compare_step_def all_processes_def dict_eq_def dict_keys_def dict_get_def)
  show ?thesis
    using b compare_partial_order [of "\<lparr>process_id = ''A'', clock = [(''A'', 1)]\<rparr>" "[(''A'', 1), (''B'', 1)]"
        "\<lparr>process_id = ''B'', clock = [(''A'', 1), (''B'', 1)]\<rparr>"]
    by (simp add: happens_before_def)
qed

text \<open>
  C10. Two clocks with equal counters at every key of the union of their keys, a missing
  key read as 0, that are not the same dictionary (such as \<^verbatim>\<open>{A:1}\<close> and
  \<^verbatim>\<open>{A:1, B:0}\<close>) compare as CONCURRENT (\<^verbatim>\<open>0\<close>).
\<close>

theorem compare_equal_values_concurrent:
  assumes "\<not> dict_eq (clock vc) b"
    and "\<forall>k\<in>set (dict_keys (clock vc)) \<union> set (dict_keys b). dict_get (clock vc) k 0 = dict_get b k 0"
  shows "compare vc b = Some 0"
  using assms by (simp add: compare_result dict_eq_iff)

theorem compare_equal_values_concurrent_witness:
  "\<not> dict_eq [(''A'', 1)] [(''A'', 1), (''B'', 0 :: int)] \<and>
   dict_get [(''A'', 1)] ''A'' 0 = dict_get [(''A'', 1), (''B'', 0 :: int)] ''A'' 0 \<and>
   dict_get [(''A'', 1)] ''B'' 0 = dict_get [(''A'', 1), (''B'', 0 :: int)] ''B'' 0 \<and>
   compare \<lparr>process_id = ''A'', clock = [(''A'', 1)]\<rparr> [(''A'', 1), (''B'', 0)] = Some 0"
proof -
  have h1: "\<not> dict_eq (clock \<lparr>process_id = ''A'', clock = [(''A'', 1)]\<rparr>) [(''A'', 1), (''B'', 0 :: int)]"
    by (simp add: dict_eq_def dict_keys_def)
  have h2: "\<forall>k\<in>set (dict_keys (clock \<lparr>process_id = ''A'', clock = [(''A'', 1)]\<rparr>))
       \<union> set (dict_keys [(''A'', 1), (''B'', 0 :: int)]).
      dict_get (clock \<lparr>process_id = ''A'', clock = [(''A'', 1)]\<rparr>) k 0
        = dict_get [(''A'', 1), (''B'', 0 :: int)] k 0"
    by (simp add: dict_keys_def dict_get_def)
  show ?thesis
    using h1 h2 compare_equal_values_concurrent [OF h1 h2]
    by (simp add: dict_keys_def)
qed

section \<open>Merging clocks\<close>

text \<open>
  C8. The merge before the increment of the own entry is commutative (merging B into A
  and A into B give equal dictionaries) and idempotent (merging a clock into itself
  leaves it as it is).
\<close>

theorem merged_commutative_idempotent:
  "dict_eq (merged a b) (merged b a) \<and> merged a a = a"
proof -
  have "map_of (merged a b) = map_of (merged b a)"
    by (rule ext) (simp add: map_of_merged Un_commute max.commute)
  moreover have "merged a a = a"
    by (simp add: merged_def update_loop_same all_processes_set)
  ultimately show ?thesis by (simp add: dict_eq_iff)
qed

theorem merged_commutative_idempotent_witness:
  "dict_eq (merged [(''A'', 2), (''B'', 0)] [(''B'', 3), (''C'', 1)])
           (merged [(''B'', 3), (''C'', 1)] [(''A'', 2), (''B'', 0)]) \<and>
   merged [(''A'', 2), (''B'', 0)] [(''B'', 3), (''C'', 1)] = [(''A'', 2), (''B'', 3), (''C'', 1)] \<and>
   merged [(''B'', 3), (''C'', 1)] [(''A'', 2), (''B'', 0)] = [(''B'', 3), (''C'', 1), (''A'', 2)] \<and>
   merged [(''A'', 2), (''B'', 0)] [(''A'', 2), (''B'', 0)] = [(''A'', 2), (''B'', 0)]"
  using merged_commutative_idempotent [of "[(''A'', 2), (''B'', 0)]" "[(''B'', 3), (''C'', 1)]"]
  by (simp add: merged_def update_loop_def merge_step_def all_processes_def dict_keys_def
      dict_get_def dict_set_def)

lemma increment_own:
  assumes "process_id vc \<in> set (dict_keys (clock vc))"
  shows "\<exists>vc' n. increment vc = Inr (vc', n) \<and>
     process_id vc' \<in> set (dict_keys (clock vc')) \<and> clock_le vc vc'"
proof -
  let ?vc' = "vc\<lparr>clock := dict_set (clock vc) (process_id vc)
                 (dict_get (clock vc) (process_id vc) 0 + 1)\<rparr>"
  have inc: "increment vc = Inr (?vc', dict_get (clock vc) (process_id vc) 0 + 1)"
    using assms by (rule increment_present)
  have own: "process_id ?vc' \<in> set (dict_keys (clock ?vc'))"
    by (simp add: dict_keys_set)
  have le: "clock_le vc ?vc'"
    by (simp add: clock_le_def dict_keys_set dict_get_dict_set)
  from inc own le show ?thesis by blast
qed

lemma update_own:
  assumes "process_id vc \<in> set (dict_keys (clock vc))"
  shows "\<exists>vc'. update vc r = Inr vc' \<and>
     process_id vc' \<in> set (dict_keys (clock vc')) \<and> clock_le vc vc'"
proof -
  let ?m = "vc\<lparr>clock := merged (clock vc) r\<rparr>"
  from assms have "process_id ?m \<in> set (dict_keys (clock ?m))"
    by (simp add: merged_keys)
  from increment_own [OF this] obtain vc' n where inc: "increment ?m = Inr (vc', n)"
    and own: "process_id vc' \<in> set (dict_keys (clock vc'))" and le: "clock_le ?m vc'"
    by blast
  have "clock_le vc ?m"
    by (simp add: clock_le_def merged_keys dict_get_merged)
  then have "clock_le vc vc'" using le by (rule clock_le_trans)
  moreover have "update vc r = Inr vc'" using inc by (simp add: update_def)
  ultimately show ?thesis using own by blast
qed

lemma apply_op_own:
  assumes "process_id vc \<in> set (dict_keys (clock vc))"
  shows "\<exists>vc'. apply_op vc x = Inr vc' \<and>
     process_id vc' \<in> set (dict_keys (clock vc')) \<and> clock_le vc vc'"
proof (cases x)
  case Increment
  from increment_own [OF assms] obtain vc' n where "increment vc = Inr (vc', n)"
    and "process_id vc' \<in> set (dict_keys (clock vc'))" and "clock_le vc vc'" by blast
  with Increment show ?thesis by simp
next
  case (Merge r)
  with update_own [OF assms, of r] show ?thesis by simp
qed

lemma apply_ops_own:
  "process_id vc \<in> set (dict_keys (clock vc)) \<Longrightarrow>
     \<exists>vc'. apply_ops vc xs = Inr vc' \<and>
       process_id vc' \<in> set (dict_keys (clock vc')) \<and> clock_le vc vc'"
proof (induction xs arbitrary: vc)
  case Nil
  then show ?case by (simp add: clock_le_refl)
next
  case (Cons x xs)
  from apply_op_own [OF Cons.prems, of x] obtain v1 where
    s1: "apply_op vc x = Inr v1" and o1: "process_id v1 \<in> set (dict_keys (clock v1))"
    and l1: "clock_le vc v1" by blast
  from Cons.IH [OF o1] obtain v2 where
    s2: "apply_ops v1 xs = Inr v2" and o2: "process_id v2 \<in> set (dict_keys (clock v2))"
    and l2: "clock_le v1 v2" by blast
  from l1 l2 have "clock_le vc v2" by (rule clock_le_trans)
  with s1 s2 o2 show ?case by simp
qed

lemma apply_ops_nonneg:
  assumes "clock_inv vc" and "apply_ops vc xs = Inr vc'"
  shows "nonneg (clock vc')"
  using apply_ops_inv [OF assms(1), of xs] assms(2) by (auto simp: clock_inv_def)

text \<open>
  C7, as the code has it. A clock object built by \<^verbatim>\<open>__init__\<close> holds its own entry,
  created with 0 when the initial clock lacks it. Every sequence of increments and merges
  runs without an error; at every point of it the own entry is there, and every key of
  that point is still there at every later point with a counter that is not smaller.
  The counters are not negative when the initial clock given to \<^verbatim>\<open>__init__\<close> has no
  negative counter: \<^verbatim>\<open>__init__\<close> copies whatever it is given.
\<close>

theorem clock_monotone:
  "p \<in> set (dict_keys (clock (init p initial_clock))) \<and>
   (p \<notin> set (dict_keys (case initial_clock of None \<Rightarrow> [] | Some d \<Rightarrow> d)) \<longrightarrow>
      map_of (clock (init p initial_clock)) p = Some 0) \<and>
   (\<exists>v1 v2. apply_ops (init p initial_clock) xs = Inr v1 \<and>
      apply_ops (init p initial_clock) (xs @ ys) = Inr v2 \<and>
      p \<in> set (dict_keys (clock v1)) \<and>
      (\<forall>k\<in>set (dict_keys (clock v1)).
         k \<in> set (dict_keys (clock v2)) \<and>
         dict_get (clock v1) k 0 \<le> dict_get (clock v2) k 0) \<and>
      ((case initial_clock of None \<Rightarrow> True | Some d \<Rightarrow> nonneg d) \<longrightarrow>
         (\<forall>k\<in>set (dict_keys (clock v1)). 0 \<le> dict_get (clock v1) k 0)))"
proof -
  let ?v0 = "init p initial_clock"
  have pid0: "process_id ?v0 = p" using init_own_entry [of p initial_clock] by simp
  have own0: "process_id ?v0 \<in> set (dict_keys (clock ?v0))" by (rule init_has_own_entry)
  from apply_ops_own [OF own0, of xs] obtain v1 where
    s1: "apply_ops ?v0 xs = Inr v1" and o1: "process_id v1 \<in> set (dict_keys (clock v1))"
    and l1: "clock_le ?v0 v1" by blast
  from apply_ops_own [OF o1, of ys] obtain v2 where
    s2: "apply_ops v1 ys = Inr v2" and l2: "clock_le v1 v2" by blast
  have s12: "apply_ops ?v0 (xs @ ys) = Inr v2"
    using s1 s2 by (simp add: apply_ops_append)
  have pid1: "process_id v1 = p" using l1 pid0 by (simp add: clock_le_def)
  have own1: "p \<in> set (dict_keys (clock v1))" using o1 pid1 by simp
  have mono: "\<forall>k\<in>set (dict_keys (clock v1)).
         k \<in> set (dict_keys (clock v2)) \<and>
         dict_get (clock v1) k 0 \<le> dict_get (clock v2) k 0"
    using l2 by (simp add: clock_le_def)
  have nn: "(case initial_clock of None \<Rightarrow> True | Some d \<Rightarrow> nonneg d) \<longrightarrow>
         (\<forall>k\<in>set (dict_keys (clock v1)). 0 \<le> dict_get (clock v1) k 0)"
  proof
    assume "case initial_clock of None \<Rightarrow> True | Some d \<Rightarrow> nonneg d"
    then have "clock_inv ?v0" by (rule init_inv)
    then have "nonneg (clock v1)" using s1 by (rule apply_ops_nonneg)
    then show "\<forall>k\<in>set (dict_keys (clock v1)). 0 \<le> dict_get (clock v1) k 0"
      by (simp add: nonneg_dict_get)
  qed
  have zero: "p \<notin> set (dict_keys (case initial_clock of None \<Rightarrow> [] | Some d \<Rightarrow> d)) \<longrightarrow>
        map_of (clock ?v0) p = Some 0"
    using init_own_entry [of p initial_clock] by simp
  have first: "p \<in> set (dict_keys (clock ?v0))" using own0 pid0 by simp
  show ?thesis
    apply (intro conjI)
      apply (rule first)
     apply (rule zero)
    apply (rule exI [of _ v1])
    apply (rule exI [of _ v2])
    apply (intro conjI)
        apply (rule s1)
       apply (rule s12)
      apply (rule own1)
     apply (rule mono)
    apply (rule nn)
    done
qed

theorem clock_monotone_witness:
  "nonneg [(''B'', 2)] \<and>
   clock (init ''A'' (Some [(''B'', 2)])) = [(''B'', 2), (''A'', 0)] \<and>
   apply_ops (init ''A'' (Some [(''B'', 2)])) [Increment]
     = Inr \<lparr>process_id = ''A'', clock = [(''B'', 2), (''A'', 1)]\<rparr> \<and>
   apply_ops (init ''A'' (Some [(''B'', 2)])) [Increment, Merge [(''B'', 5), (''C'', - 4)]]
     = Inr \<lparr>process_id = ''A'', clock = [(''B'', 5), (''A'', 2), (''C'', 0)]\<rparr>"
proof -
  have h: "nonneg [(''B'', 2)]"
    by (simp add: nonneg_def)
  have run1: "apply_ops (init ''A'' (Some [(''B'', 2)])) [Increment]
     = Inr \<lparr>process_id = ''A'', clock = [(''B'', 2), (''A'', 1)]\<rparr>"
    by (simp add: init_def increment_def dict_keys_def dict_get_def dict_set_def)
  have run: "apply_ops (init ''A'' (Some [(''B'', 2)])) [Increment, Merge [(''B'', 5), (''C'', - 4)]]
     = Inr \<lparr>process_id = ''A'', clock = [(''B'', 5), (''A'', 2), (''C'', 0)]\<rparr>"
    by (simp add: init_def increment_def update_def merged_def update_loop_def merge_step_def
        all_processes_def dict_keys_def dict_get_def dict_set_def)
  show ?thesis
    using h run1 run
      clock_monotone [of "''A''" "Some [(''B'', 2)]" "[Increment]" "[Merge [(''B'', 5), (''C'', - 4)]]"]
    by (simp add: init_def dict_keys_def dict_set_def)
qed

text \<open>
  C7, as stated, fails: \<^verbatim>\<open>VectorClock('A', {'A': -3})\<close> holds the counter \<open>-3\<close>, and after
  an increment and a merge of \<^verbatim>\<open>{'A': -5}\<close> the counter is \<open>-1\<close>, still negative.
\<close>

theorem negative_counter_kept:
  "init ''A'' (Some [(''A'', - 3)]) = \<lparr>process_id = ''A'', clock = [(''A'', - 3)]\<rparr> \<and>
   \<not> 0 \<le> dict_get (clock (init ''A'' (Some [(''A'', - 3)]))) ''A'' 0 \<and>
   apply_ops (init ''A'' (Some [(''A'', - 3)])) [Increment, Merge [(''A'', - 5)]]
     = Inr \<lparr>process_id = ''A'', clock = [(''A'', - 1)]\<rparr> \<and>
   \<not> 0 \<le> dict_get [(''A'', - 1 :: int)] ''A'' 0"
  by (simp add: init_def increment_def update_def merged_def update_loop_def merge_step_def
      all_processes_def dict_keys_def dict_get_def dict_set_def)

section \<open>The merge of a received clock\<close>

lemma dict_keys_ints: "dict_keys (ints d) = dict_keys d"
  by (simp add: dict_keys_def ints_def comp_def)

lemma merge_incoming_ints:
  "distinct (dict_keys r) \<Longrightarrow>
     \<exists>c'. merge_incoming (ints r) c = (c', None) \<and>
       set (dict_keys c') = set (dict_keys c) \<union> set (dict_keys r) \<and>
       (\<forall>k. map_of c' k =
          (if k \<in> set (dict_keys r) then Some (max (dict_get c k 0) (dict_get r k 0))
           else map_of c k))"
proof (induction r arbitrary: c)
  case Nil
  show ?case by (simp add: ints_def dict_keys_def)
next
  case (Cons kv rest)
  obtain x v where kv: "kv = (x, v)" by (cases kv)
  let ?c1 = "dict_set c x (max (dict_get c x 0) v)"
  from Cons.prems kv have fresh: "x \<notin> set (dict_keys rest)" and d: "distinct (dict_keys rest)"
    by (simp_all add: dict_keys_def)
  from Cons.IH [OF d, of ?c1] obtain c' where
    run: "merge_incoming (ints rest) ?c1 = (c', None)"
    and keys: "set (dict_keys c') = set (dict_keys ?c1) \<union> set (dict_keys rest)"
    and look: "\<forall>k. map_of c' k =
          (if k \<in> set (dict_keys rest) then Some (max (dict_get ?c1 k 0) (dict_get rest k 0))
           else map_of ?c1 k)"
    by blast
  have step: "merge_incoming (ints (kv # rest)) c = (c', None)"
    using run kv by (simp add: ints_def)
  have keys': "set (dict_keys c') = set (dict_keys c) \<union> set (dict_keys (kv # rest))"
  proof -
    have "dict_keys (kv # rest) = x # dict_keys rest"
      using kv by (simp add: dict_keys_def)
    with keys show ?thesis by (simp add: dict_keys_set)
  qed
  have look': "\<forall>k. map_of c' k =
          (if k \<in> set (dict_keys (kv # rest))
           then Some (max (dict_get c k 0) (dict_get (kv # rest) k 0))
           else map_of c k)"
  proof
    fix k
    show "map_of c' k =
          (if k \<in> set (dict_keys (kv # rest))
           then Some (max (dict_get c k 0) (dict_get (kv # rest) k 0))
           else map_of c k)"
    proof (cases "k = x")
      case True
      with fresh look have "map_of c' k = map_of ?c1 x" by simp
      with True kv show ?thesis
        by (simp add: map_of_dict_set dict_keys_def dict_get_def)
    next
      case False
      with kv have "dict_get (kv # rest) k 0 = dict_get rest k 0"
        by (simp add: dict_get_def)
      with False kv look show ?thesis
        by (simp add: dict_keys_def dict_get_dict_set map_of_dict_set)
    qed
  qed
  from step keys' look' show ?case by blast
qed

lemma receive_message_rpc_numeric:
  assumes "distinct (dict_keys r)"
  shows "\<exists>c'. receive_message_rpc w \<lparr>sender_port = s, clock_field = Some (ints r)\<rparr>
       = (w\<lparr>clock_rpc := dict_set c' (port w) (dict_get c' (port w) 0 + 1)\<rparr>, Inr True) \<and>
       set (dict_keys c') = set (dict_keys (clock_rpc w)) \<union> set (dict_keys r) \<and>
       (\<forall>k. map_of c' k =
          (if k \<in> set (dict_keys r)
           then Some (max (dict_get (clock_rpc w) k 0) (dict_get r k 0))
           else map_of (clock_rpc w) k))"
proof -
  from merge_incoming_ints [OF assms, of "clock_rpc w"] obtain c' where
    run: "merge_incoming (ints r) (clock_rpc w) = (c', None)"
    and rest: "set (dict_keys c') = set (dict_keys (clock_rpc w)) \<union> set (dict_keys r)"
      "\<forall>k. map_of c' k =
          (if k \<in> set (dict_keys r)
           then Some (max (dict_get (clock_rpc w) k 0) (dict_get r k 0))
           else map_of (clock_rpc w) k)"
    by blast
  have "receive_message_rpc w \<lparr>sender_port = s, clock_field = Some (ints r)\<rparr>
       = (w\<lparr>clock_rpc := dict_set c' (port w) (dict_get c' (port w) 0 + 1)\<rparr>, Inr True)"
    using run by (simp add: receive_message_rpc_def increment_clock_def)
  with rest show ?thesis by blast
qed

lemma map_of_nonneg_max:
  assumes "nonneg c" and "k \<in> set (dict_keys c)" and "k \<notin> set (dict_keys r)"
  shows "map_of c k = Some (max (dict_get c k 0) (dict_get r k 0))"
proof -
  have "0 \<le> dict_get c k 0" using assms(1) by (rule nonneg_dict_get)
  moreover have "dict_get r k 0 = 0" using assms(3) by (rule dict_get_absent)
  moreover have "map_of c k = Some (dict_get c k 0)" using assms(2) by (rule dict_get_present)
  ultimately show ?thesis by simp
qed

text \<open>
  C1. The merge sets, for every key of the union of the keys of the local clock and of
  the received one, the entry to the larger of the two counters, a missing one read as
  0; the keys of the result are that union, new keys included; and the own entry is then
  incremented by one. For \<^verbatim>\<open>update\<close> the own entry must be in the clock, as
  \<^verbatim>\<open>__init__\<close> leaves it; the loop of \<^verbatim>\<open>receive_message\<close> in \<^verbatim>\<open>vector_process.py\<close>
  visits the received keys only, so there the local counters must not be negative, as
  they never are from the constructor on.
\<close>

theorem merge_then_increment:
  "(process_id vc \<in> set (dict_keys (clock vc)) \<longrightarrow>
      (\<exists>vc'. update vc r = Inr vc' \<and> process_id vc' = process_id vc \<and>
         set (dict_keys (merged (clock vc) r)) = set (dict_keys (clock vc)) \<union> set (dict_keys r) \<and>
         (\<forall>k\<in>set (dict_keys (clock vc)) \<union> set (dict_keys r).
            map_of (merged (clock vc) r) k = Some (max (dict_get (clock vc) k 0) (dict_get r k 0))) \<and>
         set (dict_keys (clock vc')) = set (dict_keys (clock vc)) \<union> set (dict_keys r) \<and>
         (\<forall>k\<in>set (dict_keys (clock vc)) \<union> set (dict_keys r).
            map_of (clock vc') k =
              Some (if k = process_id vc
                    then max (dict_get (clock vc) k 0) (dict_get r k 0) + 1
                    else max (dict_get (clock vc) k 0) (dict_get r k 0))))) \<and>
   (port w \<in> set (dict_keys (clock_rpc w)) \<and> nonneg (clock_rpc w) \<and> distinct (dict_keys q) \<longrightarrow>
      (\<exists>w'. receive_message_rpc w \<lparr>sender_port = s, clock_field = Some (ints q)\<rparr> = (w', Inr True) \<and>
         port w' = port w \<and>
         set (dict_keys (clock_rpc w')) = set (dict_keys (clock_rpc w)) \<union> set (dict_keys q) \<and>
         (\<forall>k\<in>set (dict_keys (clock_rpc w)) \<union> set (dict_keys q).
            map_of (clock_rpc w') k =
              Some (if k = port w
                    then max (dict_get (clock_rpc w) k 0) (dict_get q k 0) + 1
                    else max (dict_get (clock_rpc w) k 0) (dict_get q k 0)))))"
proof (intro conjI impI)
  assume own: "process_id vc \<in> set (dict_keys (clock vc))"
  let ?m = "merged (clock vc) r"
  let ?vc' = "vc\<lparr>clock := dict_set ?m (process_id vc) (dict_get ?m (process_id vc) 0 + 1)\<rparr>"
  have run: "update vc r = Inr ?vc'" using own by (rule update_present)
  have keys: "set (dict_keys (clock ?vc')) = set (dict_keys (clock vc)) \<union> set (dict_keys r)"
    using own by (auto simp: dict_keys_set merged_keys)
  have vals: "\<forall>k\<in>set (dict_keys (clock vc)) \<union> set (dict_keys r).
            map_of (clock ?vc') k =
              Some (if k = process_id vc
                    then max (dict_get (clock vc) k 0) (dict_get r k 0) + 1
                    else max (dict_get (clock vc) k 0) (dict_get r k 0))"
    by (simp add: map_of_dict_set map_of_merged dict_get_merged)
  have mvals: "\<forall>k\<in>set (dict_keys (clock vc)) \<union> set (dict_keys r).
            map_of ?m k = Some (max (dict_get (clock vc) k 0) (dict_get r k 0))"
    by (simp add: map_of_merged)
  show "\<exists>vc'. update vc r = Inr vc' \<and> process_id vc' = process_id vc \<and>
         set (dict_keys (merged (clock vc) r)) = set (dict_keys (clock vc)) \<union> set (dict_keys r) \<and>
         (\<forall>k\<in>set (dict_keys (clock vc)) \<union> set (dict_keys r).
            map_of (merged (clock vc) r) k = Some (max (dict_get (clock vc) k 0) (dict_get r k 0))) \<and>
         set (dict_keys (clock vc')) = set (dict_keys (clock vc)) \<union> set (dict_keys r) \<and>
         (\<forall>k\<in>set (dict_keys (clock vc)) \<union> set (dict_keys r).
            map_of (clock vc') k =
              Some (if k = process_id vc
                    then max (dict_get (clock vc) k 0) (dict_get r k 0) + 1
                    else max (dict_get (clock vc) k 0) (dict_get r k 0)))"
    apply (rule exI [of _ ?vc'])
    apply (intro conjI)
        apply (rule run)
        apply simp
       apply (rule merged_keys)
      apply (rule mvals)
     apply (rule keys)
    apply (rule vals)
    done
next
  assume h: "port w \<in> set (dict_keys (clock_rpc w)) \<and> nonneg (clock_rpc w) \<and> distinct (dict_keys q)"
  then have own: "port w \<in> set (dict_keys (clock_rpc w))" and nn: "nonneg (clock_rpc w)"
    and dist: "distinct (dict_keys q)" by simp_all
  from receive_message_rpc_numeric [OF dist, of w s] obtain c' where
    run: "receive_message_rpc w \<lparr>sender_port = s, clock_field = Some (ints q)\<rparr>
       = (w\<lparr>clock_rpc := dict_set c' (port w) (dict_get c' (port w) 0 + 1)\<rparr>, Inr True)"
    and keys: "set (dict_keys c') = set (dict_keys (clock_rpc w)) \<union> set (dict_keys q)"
    and look: "\<forall>k. map_of c' k =
          (if k \<in> set (dict_keys q)
           then Some (max (dict_get (clock_rpc w) k 0) (dict_get q k 0))
           else map_of (clock_rpc w) k)"
    by blast
  let ?w' = "w\<lparr>clock_rpc := dict_set c' (port w) (dict_get c' (port w) 0 + 1)\<rparr>"
  have merged_vals: "map_of c' k = Some (max (dict_get (clock_rpc w) k 0) (dict_get q k 0))"
    if "k \<in> set (dict_keys (clock_rpc w)) \<union> set (dict_keys q)" for k
  proof (cases "k \<in> set (dict_keys q)")
    case True
    with look show ?thesis by simp
  next
    case False
    with that have "k \<in> set (dict_keys (clock_rpc w))" by simp
    with nn False have "map_of (clock_rpc w) k = Some (max (dict_get (clock_rpc w) k 0) (dict_get q k 0))"
      by (simp add: map_of_nonneg_max)
    with False look show ?thesis by simp
  qed
  have own_val: "dict_get c' (port w) 0 = max (dict_get (clock_rpc w) (port w) 0) (dict_get q (port w) 0)"
    using merged_vals [of "port w"] own by (simp add: dict_get_def)
  have keys': "set (dict_keys (clock_rpc ?w')) = set (dict_keys (clock_rpc w)) \<union> set (dict_keys q)"
    using own keys by (auto simp: dict_keys_set)
  have vals: "\<forall>k\<in>set (dict_keys (clock_rpc w)) \<union> set (dict_keys q).
            map_of (clock_rpc ?w') k =
              Some (if k = port w
                    then max (dict_get (clock_rpc w) k 0) (dict_get q k 0) + 1
                    else max (dict_get (clock_rpc w) k 0) (dict_get q k 0))"
    using merged_vals own_val by (simp add: map_of_dict_set)
  show "\<exists>w'. receive_message_rpc w \<lparr>sender_port = s, clock_field = Some (ints q)\<rparr> = (w', Inr True) \<and>
         port w' = port w \<and>
         set (dict_keys (clock_rpc w')) = set (dict_keys (clock_rpc w)) \<union> set (dict_keys q) \<and>
         (\<forall>k\<in>set (dict_keys (clock_rpc w)) \<union> set (dict_keys q).
            map_of (clock_rpc w') k =
              Some (if k = port w
                    then max (dict_get (clock_rpc w) k 0) (dict_get q k 0) + 1
                    else max (dict_get (clock_rpc w) k 0) (dict_get q k 0)))"
    apply (rule exI [of _ ?w'])
    apply (intro conjI)
       apply (rule run)
      apply simp
     apply (rule keys')
    apply (rule vals)
    done
qed

theorem merge_then_increment_witness:
  "''B'' \<in> set (dict_keys [(''B'', 0 :: int)]) \<and>
   (8002 :: nat) \<in> set (dict_keys [(8001, 4 :: int), (8002, 0)]) \<and>
   update \<lparr>process_id = ''B'', clock = [(''B'', 0)]\<rparr> [(''A'', 1)]
     = Inr \<lparr>process_id = ''B'', clock = [(''B'', 1), (''A'', 1)]\<rparr> \<and>
   nonneg [(8001 :: nat, 4), (8002, 0)] \<and>
   distinct (dict_keys [(8003 :: nat, 2 :: int), (8001, 6)]) \<and>
   receive_message_rpc \<lparr>port = 8002 :: nat, clock_rpc = [(8001, 4), (8002, 0)]\<rparr>
       \<lparr>sender_port = Some 8001, clock_field = Some (ints [(8003, 2), (8001, 6)])\<rparr>
     = (\<lparr>port = 8002, clock_rpc = [(8001, 6), (8002, 1), (8003, 2)]\<rparr>, Inr True)"
proof -
  have u: "update \<lparr>process_id = ''B'', clock = [(''B'', 0)]\<rparr> [(''A'', 1)]
     = Inr \<lparr>process_id = ''B'', clock = [(''B'', 1), (''A'', 1)]\<rparr>"
    by (simp add: update_def increment_def merged_def update_loop_def merge_step_def
        all_processes_def dict_keys_def dict_get_def dict_set_def)
  have nn: "nonneg [(8001 :: nat, 4), (8002, 0)]" by (simp add: nonneg_def)
  have d: "distinct (dict_keys [(8003 :: nat, 2 :: int), (8001, 6)])" by (simp add: dict_keys_def)
  have r: "receive_message_rpc \<lparr>port = 8002 :: nat, clock_rpc = [(8001, 4), (8002, 0)]\<rparr>
       \<lparr>sender_port = Some 8001, clock_field = Some (ints [(8003, 2), (8001, 6)])\<rparr>
     = (\<lparr>port = 8002, clock_rpc = [(8001, 6), (8002, 1), (8003, 2)]\<rparr>, Inr True)"
    by (simp add: receive_message_rpc_def increment_clock_def ints_def dict_get_def dict_set_def)
  have o1: "''B'' \<in> set (dict_keys [(''B'', 0 :: int)])" by (simp add: dict_keys_def)
  have o2: "(8002 :: nat) \<in> set (dict_keys [(8001, 4 :: int), (8002, 0)])"
    by (simp add: dict_keys_def)
  show ?thesis
    using o1 o2 u nn d r
      merge_then_increment [of "\<lparr>process_id = ''B'', clock = [(''B'', 0)]\<rparr>" "[(''A'', 1)]"
        "\<lparr>port = 8002 :: nat, clock_rpc = [(8001, 4), (8002, 0)]\<rparr>" "[(8003, 2), (8001, 6)]" "Some 8001"]
    by simp
qed

section \<open>Processes on the store\<close>

lemma obj_loop_frame:
  "length (fold (obj_merge_step cref rref) ks st) = length st \<and>
   (a \<noteq> cref \<longrightarrow> fold (obj_merge_step cref rref) ks st ! a = st ! a)"
  by (induction ks arbitrary: st) (simp_all add: obj_merge_step_def)

lemma obj_loop_other:
  "cref < length st \<Longrightarrow> rref \<noteq> cref \<Longrightarrow>
     fold (obj_merge_step cref rref) ks st = st[cref := update_loop ks (st ! cref) (st ! rref)]"
proof (induction ks arbitrary: st)
  case Nil
  show ?case by (simp add: update_loop_def)
next
  case (Cons k ks)
  let ?st1 = "obj_merge_step cref rref k st"
  have len: "cref < length ?st1" using Cons.prems by (simp add: obj_merge_step_def)
  have c1: "?st1 ! cref = merge_step (st ! rref) k (st ! cref)"
    using Cons.prems by (simp add: obj_merge_step_def)
  have r1: "?st1 ! rref = st ! rref"
    using Cons.prems by (simp add: obj_merge_step_def)
  have "fold (obj_merge_step cref rref) (k # ks) st = fold (obj_merge_step cref rref) ks ?st1"
    by simp
  also have "\<dots> = ?st1[cref := update_loop ks (?st1 ! cref) (?st1 ! rref)]"
    using len Cons.prems(2) by (rule Cons.IH)
  also have "\<dots> = st[cref := update_loop (k # ks) (st ! cref) (st ! rref)]"
    unfolding c1 r1 by (simp add: obj_merge_step_def update_loop_def)
  finally show ?case .
qed

lemma obj_loop_self:
  "\<forall>k\<in>set ks. k \<in> set (dict_keys (st ! cref)) \<Longrightarrow>
     fold (obj_merge_step cref cref) ks st = st"
proof (induction ks)
  case Nil
  show ?case by simp
next
  case (Cons k ks)
  then have "k \<in> set (dict_keys (st ! cref))" by simp
  then have "map_of (st ! cref) k = Some (dict_get (st ! cref) k 0)" by (rule dict_get_present)
  then have "merge_step (st ! cref) k (st ! cref) = st ! cref"
    by (simp add: merge_step_def dict_set_def AList.update_triv)
  then have "obj_merge_step cref cref k st = st"
    by (simp add: obj_merge_step_def)
  with Cons show ?case by simp
qed

lemma obj_loop_merged:
  assumes "cref < length st"
  shows "fold (obj_merge_step cref rref) (all_processes (st ! cref) (st ! rref)) st
           = st[cref := merged (st ! cref) (st ! rref)]"
proof (cases "rref = cref")
  case False
  with assms show ?thesis by (simp add: obj_loop_other merged_def)
next
  case True
  have "fold (obj_merge_step cref cref) (all_processes (st ! cref) (st ! cref)) st = st"
    by (rule obj_loop_self) (simp add: all_processes_set)
  moreover have "merged (st ! cref) (st ! cref) = st ! cref"
    by (simp add: merged_def update_loop_same all_processes_set)
  ultimately show ?thesis using True by simp
qed

lemma obj_increment_ok:
  assumes "process_ok st p"
  shows "obj_increment st p =
     Inr (st[clock_ref p := dict_set (st ! clock_ref p) (pid p) (dict_get (st ! clock_ref p) (pid p) 0 + 1)],
          dict_get (st ! clock_ref p) (pid p) 0 + 1)"
  using assms
  by (simp add: obj_increment_def vector_clock_of_def process_ok_def increment_present)

lemma obj_update_ok:
  assumes "process_ok st p"
  shows "\<exists>vc'. update (vector_clock_of st p) (st ! rref) = Inr vc' \<and>
           obj_update st p rref = Inr (st[clock_ref p := clock vc'])"
proof -
  let ?c = "st ! clock_ref p"
  let ?m = "merged ?c (st ! rref)"
  let ?st1 = "st[clock_ref p := ?m]"
  from assms have len: "clock_ref p < length st" and own: "pid p \<in> set (dict_keys ?c)"
    by (simp_all add: process_ok_def)
  have loop: "fold (obj_merge_step (clock_ref p) rref) (all_processes ?c (st ! rref)) st = ?st1"
    using len by (rule obj_loop_merged)
  have ok1: "process_ok ?st1 p"
    using len own by (simp add: process_ok_def merged_keys)
  have inc: "obj_increment ?st1 p =
      Inr (?st1[clock_ref p := dict_set ?m (pid p) (dict_get ?m (pid p) 0 + 1)],
           dict_get ?m (pid p) 0 + 1)"
    using obj_increment_ok [OF ok1] len by simp
  have upd: "update (vector_clock_of st p) (st ! rref) =
      Inr ((vector_clock_of st p)\<lparr>clock := dict_set ?m (pid p) (dict_get ?m (pid p) 0 + 1)\<rparr>)"
    using update_present [of "vector_clock_of st p" "st ! rref"] own
    by (simp add: vector_clock_of_def)
  have "obj_update st p rref = Inr (st[clock_ref p := dict_set ?m (pid p) (dict_get ?m (pid p) 0 + 1)])"
    unfolding obj_update_def Let_def loop inc by simp
  with upd show ?thesis by simp
qed

lemma log_indexed_iff:
  "log_indexed p \<longleftrightarrow> (\<forall>i<length (message_log p). timestamp (message_log p ! i) = i)"
  by (auto simp: log_indexed_def list_all_iff)

lemma log_indexed_append:
  assumes "log_indexed p" and "timestamp e = length (message_log p)"
  shows "log_indexed (p\<lparr>message_log := message_log p @ [e]\<rparr>)"
proof -
  have "timestamp ((message_log p @ [e]) ! i) = i" if "i < Suc (length (message_log p))" for i
  proof (cases "i < length (message_log p)")
    case True
    with assms(1) show ?thesis by (simp add: nth_append log_indexed_iff)
  next
    case False
    with that have "i = length (message_log p)" by simp
    with assms(2) show ?thesis by simp
  qed
  then show ?thesis by (simp add: log_indexed_iff)
qed

lemma update_Inr_own:
  "update vc r = Inr vc' \<Longrightarrow>
     process_id vc' = process_id vc \<and> process_id vc \<in> set (dict_keys (clock vc'))"
  by (auto simp: update_def increment_def dict_keys_set split: option.splits)

lemma receive_message_ok:
  assumes ok: "process_ok st p"
    and c: "content m = Some x" and r: "vector_clock m = Some rref"
  shows "\<exists>vc'. update (vector_clock_of st p) (st ! rref) = Inr vc' \<and>
     receive_message st p m =
       Inr (st[clock_ref p := clock vc'] @ [clock vc'],
            p\<lparr>message_log := message_log p @
                 [\<lparr>logged_message = m, local_clock = length st,
                   timestamp = length (message_log p)\<rparr>]\<rparr>,
            True)"
proof -
  from obj_update_ok [OF ok, of rref] obtain vc' where
    upd: "update (vector_clock_of st p) (st ! rref) = Inr vc'"
    and obj: "obj_update st p rref = Inr (st[clock_ref p := clock vc'])" by blast
  from ok have len: "clock_ref p < length st" by (simp add: process_ok_def)
  have "receive_message st p m =
       Inr (st[clock_ref p := clock vc'] @ [clock vc'],
            p\<lparr>message_log := message_log p @
                 [\<lparr>logged_message = m, local_clock = length st,
                   timestamp = length (message_log p)\<rparr>]\<rparr>,
            True)"
    using len by (simp add: receive_message_def c r obj obj_get_clock_def)
  with upd show ?thesis by blast
qed

lemma obj_increment_Inr:
  "obj_increment st p = Inr (st', n) \<Longrightarrow>
     length st' = length st \<and> (a \<noteq> clock_ref p \<longrightarrow> st' ! a = st ! a)"
  by (cases "increment (vector_clock_of st p)") (auto simp: obj_increment_def)

lemma obj_increment_Inl: "obj_increment st p = Inl (e, st') \<Longrightarrow> st' = st"
  by (cases "increment (vector_clock_of st p)") (auto simp: obj_increment_def)

lemma obj_update_Inr:
  assumes "obj_update st p r = Inr st'"
  shows "length st' = length st \<and> (a \<noteq> clock_ref p \<longrightarrow> st' ! a = st ! a)"
proof -
  let ?st1 = "fold (obj_merge_step (clock_ref p) r) (all_processes (st ! clock_ref p) (st ! r)) st"
  from assms obtain n where "obj_increment ?st1 p = Inr (st', n)"
    by (cases "obj_increment ?st1 p") (auto simp: obj_update_def Let_def)
  from obj_increment_Inr [OF this, of a] obj_loop_frame [of "clock_ref p" r _ st a]
  show ?thesis by simp
qed

lemma obj_update_Inl:
  assumes "obj_update st p r = Inl (e, st')"
  shows "length st' = length st \<and> (a \<noteq> clock_ref p \<longrightarrow> st' ! a = st ! a)"
proof -
  let ?st1 = "fold (obj_merge_step (clock_ref p) r) (all_processes (st ! clock_ref p) (st ! r)) st"
  from assms have "obj_increment ?st1 p = Inl (e, st')"
    by (cases "obj_increment ?st1 p") (auto simp: obj_update_def Let_def)
  from obj_increment_Inl [OF this] obj_loop_frame [of "clock_ref p" r _ st a]
  show ?thesis by simp
qed

lemma local_event_cases:
  "local_event st p =
     (case obj_increment st p of Inl e \<Rightarrow> Inl e | Inr (st1, n) \<Rightarrow> Inr st1)"
  by (simp add: local_event_def)

lemma local_event_frame:
  "(case local_event st p of Inl (e, st') \<Rightarrow> st' = st
    | Inr st' \<Rightarrow> length st' = length st \<and> (a \<noteq> clock_ref p \<longrightarrow> st' ! a = st ! a))"
proof (cases "obj_increment st p")
  case (Inl err)
  obtain e st' where "err = (e, st')" by (cases err)
  with Inl obj_increment_Inl [of st p e st'] show ?thesis by (simp add: local_event_def)
next
  case (Inr res)
  obtain st1 n where "res = (st1, n)" by (cases res)
  with Inr obj_increment_Inr [of st p st1 n a] show ?thesis by (simp add: local_event_def)
qed

lemma send_message_frame:
  "(case send_message st p c t of Inl (e, st') \<Rightarrow> st' = st
    | Inr (st', m) \<Rightarrow> length st' = Suc (length st) \<and>
        (a < length st \<and> a \<noteq> clock_ref p \<longrightarrow> st' ! a = st ! a))"
proof (cases "obj_increment st p")
  case (Inl err)
  obtain e st' where "err = (e, st')" by (cases err)
  with Inl obj_increment_Inl [of st p e st'] show ?thesis by (simp add: send_message_def)
next
  case (Inr res)
  obtain st1 n where "res = (st1, n)" by (cases res)
  with Inr obj_increment_Inr [of st p st1 n a] show ?thesis
    by (simp add: send_message_def obj_get_clock_def nth_append)
qed

lemma receive_message_frame:
  "(case receive_message st p m of
      Inl (e, st') \<Rightarrow> length st' = length st \<and> (a \<noteq> clock_ref p \<longrightarrow> st' ! a = st ! a)
    | Inr (st', p', ok) \<Rightarrow> length st' = Suc (length st) \<and>
        clock_ref p' = clock_ref p \<and> pid p' = pid p \<and>
        (a < length st \<and> a \<noteq> clock_ref p \<longrightarrow> st' ! a = st ! a))"
proof (cases "content m")
  case None
  then show ?thesis by (simp add: receive_message_def)
next
  case (Some c)
  show ?thesis
  proof (cases "vector_clock m")
    case None
    with Some show ?thesis by (simp add: receive_message_def)
  next
    case r: (Some r)
    show ?thesis
    proof (cases "obj_update st p r")
      case (Inl err)
      obtain e st' where "err = (e, st')" by (cases err)
      with Inl Some r obj_update_Inl [of st p r e st' a] show ?thesis
        by (simp add: receive_message_def)
    next
      case (Inr st1)
      with Some r obj_update_Inr [of st p r st1 a] show ?thesis
        by (simp add: receive_message_def obj_get_clock_def nth_append)
    qed
  qed
qed

lemma process_step_Inr:
  assumes "process_step (st, p) x = Inr (st', p')"
  shows "clock_ref p' = clock_ref p \<and> pid p' = pid p \<and> length st \<le> length st' \<and>
     (a < length st \<and> a \<noteq> clock_ref p \<longrightarrow> st' ! a = st ! a)"
proof (cases x)
  case LocalEvent
  with assms local_event_frame [where st = st and p = p and a = a] show ?thesis
    by (cases "local_event st p") auto
next
  case (Send c t)
  with assms send_message_frame [where st = st and p = p and c = c and t = t and a = a] show ?thesis
    by (cases "send_message st p c t") auto
next
  case (Receive m)
  with assms receive_message_frame [where st = st and p = p and m = m and a = a] show ?thesis
    by (cases "receive_message st p m") auto
qed

lemma process_step_Inl:
  assumes "process_step (st, p) x = Inl (e, st')"
  shows "length st \<le> length st' \<and> (a < length st \<and> a \<noteq> clock_ref p \<longrightarrow> st' ! a = st ! a)"
proof (cases x)
  case LocalEvent
  with assms local_event_frame [where st = st and p = p and a = a] show ?thesis
    by (cases "local_event st p") auto
next
  case (Send c t)
  with assms send_message_frame [where st = st and p = p and c = c and t = t and a = a] show ?thesis
    by (cases "send_message st p c t") auto
next
  case (Receive m)
  with assms receive_message_frame [where st = st and p = p and m = m and a = a] show ?thesis
    by (cases "receive_message st p m") auto
qed

lemma process_run_frame:
  "a < length st \<Longrightarrow> a \<noteq> clock_ref p \<Longrightarrow>
     (case process_run (st, p) xs of
        Inl (e, st') \<Rightarrow> st' ! a = st ! a
      | Inr (st', p') \<Rightarrow> st' ! a = st ! a \<and> clock_ref p' = clock_ref p)"
proof (induction xs arbitrary: st p)
  case Nil
  show ?case by simp
next
  case (Cons x xs)
  show ?case
  proof (cases "process_step (st, p) x")
    case (Inl err)
    obtain e st' where "err = (e, st')" by (cases err)
    with Inl process_step_Inl [of st p x e st' a] Cons.prems show ?thesis by simp
  next
    case (Inr s1)
    obtain st1 p1 where s1: "s1 = (st1, p1)" by (cases s1)
    from Inr s1 process_step_Inr [of st p x st1 p1 a] Cons.prems
    have keep: "st1 ! a = st ! a" and ref: "clock_ref p1 = clock_ref p" and len: "a < length st1"
      by simp_all
    from Cons.IH [of st1 p1] len ref Cons.prems(2)
    have "case process_run (st1, p1) xs of
        Inl (e, st') \<Rightarrow> st' ! a = st1 ! a
      | Inr (st', p') \<Rightarrow> st' ! a = st1 ! a \<and> clock_ref p' = clock_ref p1" by simp
    with Inr s1 keep ref show ?thesis by (auto split: sum.splits)
  qed
qed

lemma send_message_ok:
  assumes "process_ok st p"
  shows "send_message st p c t =
     Inr (st[clock_ref p := dict_set (st ! clock_ref p) (pid p) (dict_get (st ! clock_ref p) (pid p) 0 + 1)]
            @ [dict_set (st ! clock_ref p) (pid p) (dict_get (st ! clock_ref p) (pid p) 0 + 1)],
          \<lparr>content = Some c, sender = pid p, vector_clock = Some (length st), target = t\<rparr>)"
  using assms obj_increment_ok [OF assms]
  by (simp add: send_message_def obj_get_clock_def process_ok_def)

text \<open>
  \<^verbatim>\<open>send_message\<close> of \<^verbatim>\<open>VectorClockProcess\<close>: the own entry is incremented first, the
  stamp of the message is a new dictionary equal to the clock after the increment, and
  nothing the process does later, whether it returns or raises, changes that
  dictionary.
\<close>

lemma send_message_stamp:
  assumes "process_ok st p"
  shows "\<exists>st' m a. send_message st p c t = Inr (st', m) \<and>
     content m = Some c \<and> sender m = pid p \<and> target m = t \<and> vector_clock m = Some a \<and>
     st' ! clock_ref p =
       dict_set (st ! clock_ref p) (pid p) (dict_get (st ! clock_ref p) (pid p) 0 + 1) \<and>
     st' ! a = st' ! clock_ref p \<and> a \<noteq> clock_ref p \<and> length st \<le> a \<and> a < length st' \<and>
     (\<forall>xs e st''. process_run (st', p) xs = Inl (e, st'') \<longrightarrow> st'' ! a = st' ! a) \<and>
     (\<forall>xs st'' p''. process_run (st', p) xs = Inr (st'', p'') \<longrightarrow> st'' ! a = st' ! a)"
proof -
  let ?c = "dict_set (st ! clock_ref p) (pid p) (dict_get (st ! clock_ref p) (pid p) 0 + 1)"
  let ?st' = "st[clock_ref p := ?c] @ [?c]"
  let ?m = "\<lparr>content = Some c, sender = pid p, vector_clock = Some (length st), target = t\<rparr>"
  from assms have len: "clock_ref p < length st" by (simp add: process_ok_def)
  have run: "send_message st p c t = Inr (?st', ?m)" using assms by (rule send_message_ok)
  have cur: "?st' ! clock_ref p = ?c" using len by (simp add: nth_append)
  have snap: "?st' ! length st = ?st' ! clock_ref p" using len by (simp add: nth_append)
  have a1: "length st < length ?st'" by simp
  have a2: "length st \<noteq> clock_ref p" using len by simp
  have later_err: "\<forall>xs e st''. process_run (?st', p) xs = Inl (e, st'') \<longrightarrow> st'' ! length st = ?st' ! length st"
  proof (intro allI impI)
    fix xs e st''
    assume "process_run (?st', p) xs = Inl (e, st'')"
    with process_run_frame [OF a1 a2, of xs] show "st'' ! length st = ?st' ! length st" by simp
  qed
  have later: "\<forall>xs st'' p''. process_run (?st', p) xs = Inr (st'', p'') \<longrightarrow> st'' ! length st = ?st' ! length st"
  proof (intro allI impI)
    fix xs st'' p''
    assume "process_run (?st', p) xs = Inr (st'', p'')"
    with process_run_frame [OF a1 a2, of xs] show "st'' ! length st = ?st' ! length st" by simp
  qed
  show ?thesis
    apply (rule exI [of _ ?st'])
    apply (rule exI [of _ ?m])
    apply (rule exI [of _ "length st"])
    apply (intro conjI)
              apply (rule run)
             apply simp
            apply simp
           apply simp
          apply simp
         apply (rule cur)
        apply (rule snap)
       apply (rule a2)
      apply simp
     apply simp
     apply (rule later_err)
    apply (rule later)
    done
qed

text \<open>
  The demonstration of the source ends with A at \<^verbatim>\<open>{A: 2}\<close>, B at \<^verbatim>\<open>{B: 3, A: 1}\<close> and C at
  \<^verbatim>\<open>{C: 2, B: 2, A: 2}\<close>; A and B are concurrent, B and C are concurrent, A is before C.
\<close>

lemma demo_vector_clocks_result:
  "demo_vector_clocks =
     Inr (([(''A'', 2)], [(''B'', 3), (''A'', 1)], [(''C'', 2), (''B'', 2), (''A'', 2)]),
          (Some 0, Some 0, Some (- 1)))"
  by code_simp

lemma new_process_ok:
  "process_ok (fst (new_process st i)) (snd (new_process st i)) \<and>
   log_indexed (snd (new_process st i)) \<and>
   fst (new_process st i) ! clock_ref (snd (new_process st i)) = [(i, 0)]"
  by (simp add: new_process_def process_ok_def log_indexed_def init_def dict_keys_def dict_set_def)

lemma receive_message_log:
  "receive_message st p m = Inr (st', p', ok) \<Longrightarrow>
     ok \<and> (\<exists>e. timestamp e = length (message_log p) \<and>
             p' = p\<lparr>message_log := message_log p @ [e]\<rparr>)"
proof (cases "content m")
  case None
  assume "receive_message st p m = Inr (st', p', ok)"
  with None show ?thesis by (simp add: receive_message_def)
next
  case (Some c)
  assume run: "receive_message st p m = Inr (st', p', ok)"
  show ?thesis
  proof (cases "vector_clock m")
    case None
    with Some run show ?thesis by (simp add: receive_message_def)
  next
    case r: (Some r)
    show ?thesis
    proof (cases "obj_update st p r")
      case (Inl err)
      with Some r run show ?thesis by (simp add: receive_message_def)
    next
      case (Inr st1)
      with Some r run have ok: "ok"
        and p': "p' = p\<lparr>message_log := message_log p @
            [\<lparr>logged_message = m, local_clock = length st1,
              timestamp = length (message_log p)\<rparr>]\<rparr>"
        by (simp_all add: receive_message_def obj_get_clock_def)
      have "timestamp \<lparr>logged_message = m, local_clock = length st1,
              timestamp = length (message_log p)\<rparr> = length (message_log p)" by simp
      with ok p' show ?thesis by blast
    qed
  qed
qed

lemma process_step_log_indexed:
  assumes "process_step (st, p) x = Inr (st', p')" and "log_indexed p"
  shows "log_indexed p'"
proof (cases x)
  case LocalEvent
  with assms show ?thesis by (cases "local_event st p") auto
next
  case (Send c t)
  with assms show ?thesis by (cases "send_message st p c t") auto
next
  case (Receive m)
  with assms(1) obtain ok where "receive_message st p m = Inr (st', p', ok)"
    by (cases "receive_message st p m") auto
  from receive_message_log [OF this] assms(2) show ?thesis
    by (auto simp: log_indexed_append)
qed

lemma process_run_log_indexed:
  "process_run (st, p) xs = Inr (st', p') \<Longrightarrow> log_indexed p \<Longrightarrow> log_indexed p'"
proof (induction xs arbitrary: st p)
  case Nil
  then show ?case by simp
next
  case (Cons x xs)
  show ?case
  proof (cases "process_step (st, p) x")
    case (Inl err)
    with Cons.prems show ?thesis by simp
  next
    case (Inr s1)
    obtain st1 p1 where s1: "s1 = (st1, p1)" by (cases s1)
    with Inr Cons.prems(2) have "log_indexed p1"
      using process_step_log_indexed [of st p x st1 p1] by simp
    moreover from Inr s1 Cons.prems(1) have "process_run (st1, p1) xs = Inr (st', p')" by simp
    ultimately show ?thesis by (rule Cons.IH [rotated])
  qed
qed

lemma update_values:
  assumes "process_id vc \<in> set (dict_keys (clock vc))" and "update vc r = Inr vc'"
  shows "set (dict_keys (clock vc')) = set (dict_keys (clock vc)) \<union> set (dict_keys r) \<and>
     (\<forall>k\<in>set (dict_keys (clock vc)) \<union> set (dict_keys r).
        map_of (clock vc') k =
          Some (if k = process_id vc
                then max (dict_get (clock vc) k 0) (dict_get r k 0) + 1
                else max (dict_get (clock vc) k 0) (dict_get r k 0)))"
proof -
  let ?m = "merged (clock vc) r"
  from assms have vc': "vc' = vc\<lparr>clock := dict_set ?m (process_id vc) (dict_get ?m (process_id vc) 0 + 1)\<rparr>"
    by (simp add: update_present)
  have keys: "set (dict_keys (clock vc')) = set (dict_keys (clock vc)) \<union> set (dict_keys r)"
    unfolding vc' using assms(1) by (auto simp: dict_keys_set merged_keys)
  have vals: "\<forall>k\<in>set (dict_keys (clock vc)) \<union> set (dict_keys r).
        map_of (clock vc') k =
          Some (if k = process_id vc
                then max (dict_get (clock vc) k 0) (dict_get r k 0) + 1
                else max (dict_get (clock vc) k 0) (dict_get r k 0))"
    unfolding vc' by (simp add: map_of_dict_set map_of_merged dict_get_merged)
  from keys vals show ?thesis by (rule conjI)
qed

text \<open>
  C5. For a process whose clock holds its own entry and a message with both keys and a
  stamp in the store, \<^verbatim>\<open>receive_message\<close> returns \<^verbatim>\<open>True\<close>. The clock of the process is
  then the result of \<^verbatim>\<open>update\<close> with the stamp: its keys are the union of the keys of the
  clock before and of the stamp, every counter is the larger of the two, a missing one
  read as 0, and the own counter is one more than that. The log has grown by exactly one
  entry, which holds the message, a copy of the clock after the merge and the increment
  (a dictionary of its own), and as sequence number the length of the log before, which
  is its index in the log.
\<close>

theorem receive_message_accepts:
  assumes "process_ok st p" and "well_formed st m"
  shows "\<exists>st' p' r vc' e.
     receive_message st p m = Inr (st', p', True) \<and>
     vector_clock m = Some r \<and>
     update (vector_clock_of st p) (st ! r) = Inr vc' \<and>
     pid p' = pid p \<and> clock_ref p' = clock_ref p \<and> process_ok st' p' \<and>
     st' ! clock_ref p' = clock vc' \<and>
     set (dict_keys (st' ! clock_ref p')) =
       set (dict_keys (st ! clock_ref p)) \<union> set (dict_keys (st ! r)) \<and>
     (\<forall>k\<in>set (dict_keys (st ! clock_ref p)) \<union> set (dict_keys (st ! r)).
        map_of (st' ! clock_ref p') k =
          Some (if k = pid p
                then max (dict_get (st ! clock_ref p) k 0) (dict_get (st ! r) k 0) + 1
                else max (dict_get (st ! clock_ref p) k 0) (dict_get (st ! r) k 0))) \<and>
     message_log p' = message_log p @ [e] \<and>
     logged_message e = m \<and>
     st' ! local_clock e = st' ! clock_ref p' \<and> local_clock e \<noteq> clock_ref p' \<and>
     timestamp e = length (message_log p) \<and>
     message_log p' ! timestamp e = e \<and>
     (log_indexed p \<longrightarrow> log_indexed p')"
proof -
  from assms(2) obtain x r where c: "content m = Some x" and r: "vector_clock m = Some r"
    by (auto simp: well_formed_def split: option.splits)
  from receive_message_ok [OF assms(1) c r] obtain vc' where
    upd: "update (vector_clock_of st p) (st ! r) = Inr vc'"
    and run: "receive_message st p m =
       Inr (st[clock_ref p := clock vc'] @ [clock vc'],
            p\<lparr>message_log := message_log p @
                 [\<lparr>logged_message = m, local_clock = length st,
                   timestamp = length (message_log p)\<rparr>]\<rparr>,
            True)" by blast
  let ?st' = "st[clock_ref p := clock vc'] @ [clock vc']"
  let ?e = "\<lparr>logged_message = m, local_clock = length st, timestamp = length (message_log p)\<rparr>"
  let ?p' = "p\<lparr>message_log := message_log p @ [?e]\<rparr>"
  from assms(1) have len: "clock_ref p < length st"
    and own0: "process_id (vector_clock_of st p) \<in> set (dict_keys (clock (vector_clock_of st p)))"
    by (simp_all add: process_ok_def vector_clock_of_def)
  have own: "pid p \<in> set (dict_keys (clock vc'))"
    using update_Inr_own [OF upd] by (simp add: vector_clock_of_def)
  have ok': "process_ok ?st' ?p'"
    using len own by (simp add: process_ok_def nth_append)
  have cur: "?st' ! clock_ref ?p' = clock vc'"
    using len by (simp add: nth_append)
  have keys: "set (dict_keys (?st' ! clock_ref ?p')) =
       set (dict_keys (st ! clock_ref p)) \<union> set (dict_keys (st ! r))"
    unfolding cur using update_values [OF own0 upd] by (simp add: vector_clock_of_def)
  have vals: "\<forall>k\<in>set (dict_keys (st ! clock_ref p)) \<union> set (dict_keys (st ! r)).
        map_of (?st' ! clock_ref ?p') k =
          Some (if k = pid p
                then max (dict_get (st ! clock_ref p) k 0) (dict_get (st ! r) k 0) + 1
                else max (dict_get (st ! clock_ref p) k 0) (dict_get (st ! r) k 0))"
    unfolding cur using update_values [OF own0 upd] by (simp add: vector_clock_of_def)
  have snap: "?st' ! local_clock ?e = ?st' ! clock_ref ?p'"
    using len by (simp add: nth_append)
  have fresh: "local_clock ?e \<noteq> clock_ref ?p'"
    using len by simp
  have idx: "log_indexed p \<longrightarrow> log_indexed ?p'"
    by (simp add: log_indexed_append)
  show ?thesis
    apply (rule exI [of _ ?st'])
    apply (rule exI [of _ ?p'])
    apply (rule exI [of _ r])
    apply (rule exI [of _ vc'])
    apply (rule exI [of _ ?e])
    apply (intro conjI)
                  apply (rule run)
                 apply (rule r)
                apply (rule upd)
               apply simp
              apply simp
             apply (rule ok')
            apply (rule cur)
           apply (rule keys)
          apply (rule vals)
         apply simp
        apply simp
       apply (rule snap)
      apply (rule fresh)
     apply simp
    apply simp
    apply (rule idx)
    done
qed

theorem receive_message_accepts_witness:
  "process_ok [[(''A'', 3), (''B'', 1)], [(''B'', 2), (''A'', 1)], [(''A'', 3), (''B'', 1)]]
     (\<lparr>pid = ''B'', clock_ref = 1, message_log = []\<rparr> :: (string, string, nat) VectorClockProcess) \<and>
   well_formed [[(''A'', 3), (''B'', 1)], [(''B'', 2), (''A'', 1)], [(''A'', 3), (''B'', 1 :: int)]]
     \<lparr>content = Some ''Hello from A'', sender = ''A'', vector_clock = Some 2, target = Some ''B''\<rparr> \<and>
   receive_message [[(''A'', 3), (''B'', 1)], [(''B'', 2), (''A'', 1)], [(''A'', 3), (''B'', 1)]]
     \<lparr>pid = ''B'', clock_ref = 1, message_log = []\<rparr>
     \<lparr>content = Some ''Hello from A'', sender = ''A'', vector_clock = Some 2, target = Some ''B''\<rparr>
   = Inr ([[(''A'', 3), (''B'', 1)], [(''B'', 3), (''A'', 3)], [(''A'', 3), (''B'', 1)],
           [(''B'', 3), (''A'', 3)]],
          \<lparr>pid = ''B'', clock_ref = 1,
            message_log = [\<lparr>logged_message =
                \<lparr>content = Some ''Hello from A'', sender = ''A'', vector_clock = Some 2,
                  target = Some ''B''\<rparr>,
              local_clock = 3, timestamp = 0\<rparr>]\<rparr>,
          True)"
proof -
  let ?st = "[[(''A'', 3), (''B'', 1)], [(''B'', 2), (''A'', 1)], [(''A'', 3), (''B'', 1 :: int)]]"
  let ?p = "\<lparr>pid = ''B'', clock_ref = 1, message_log = [] :: (string, string, nat) log_entry list\<rparr>"
  let ?m = "\<lparr>content = Some ''Hello from A'', sender = ''A'', vector_clock = Some 2, target = Some ''B''\<rparr>"
  have ok: "process_ok ?st ?p" by (simp add: process_ok_def dict_keys_def)
  have wf: "well_formed ?st ?m" by (simp add: well_formed_def)
  have upd: "update (vector_clock_of ?st ?p) (?st ! 2)
      = Inr \<lparr>process_id = ''B'', clock = [(''B'', 3), (''A'', 3)]\<rparr>"
    by (simp add: vector_clock_of_def update_def increment_def merged_def update_loop_def
        merge_step_def all_processes_def dict_keys_def dict_get_def dict_set_def)
  have eval: "receive_message ?st ?p ?m
   = Inr ([[(''A'', 3), (''B'', 1)], [(''B'', 3), (''A'', 3)], [(''A'', 3), (''B'', 1)],
           [(''B'', 3), (''A'', 3)]],
          \<lparr>pid = ''B'', clock_ref = 1,
            message_log = [\<lparr>logged_message = ?m, local_clock = 3, timestamp = 0\<rparr>]\<rparr>,
          True)"
    using receive_message_ok [of ?st ?p ?m "''Hello from A''" 2] ok upd
    by simp
  show ?thesis
    using receive_message_accepts [OF ok wf]
    apply (intro conjI)
      apply (rule ok)
     apply (rule wf)
    apply (rule eval)
    done
qed

section \<open>Received clocks with values that are not numbers\<close>

lemma map_of_ints: "map_of (ints d) k = map_option PyInt (map_of d k)"
  by (induction d) (auto simp: ints_def)

lemma dict_get_ints: "dict_get (ints d) k (PyInt 0) = PyInt (dict_get d k 0)"
  by (cases "map_of d k") (simp_all add: dict_get_def map_of_ints)

lemma update_loop_raw_ints: "update_loop_raw ks c (ints r) = (update_loop ks c r, None)"
proof (induction ks arbitrary: c)
  case Nil
  show ?case by (simp add: update_loop_def)
next
  case (Cons k ks)
  show ?case
    by (simp add: dict_get_ints Cons.IH update_loop_def merge_step_def Let_def)
qed

lemma update_raw_ints:
  "update_raw (all_processes (clock vc) r) vc (ints r) =
     (case update vc r of
        Inl e \<Rightarrow> (vc\<lparr>clock := merged (clock vc) r\<rparr>, Inl e)
      | Inr vc' \<Rightarrow> (vc', Inr ()))"
  by (cases "increment (vc\<lparr>clock := merged (clock vc) r\<rparr>)")
     (auto simp: update_raw_def update_loop_raw_ints update_def merged_def)















lemma receive_message_raw_ints:
  assumes "process_ok st p" and "content m = Some c" and "vector_clock m = Some (ints r)"
  shows "\<exists>vc'. update (vector_clock_of st p) r = Inr vc' \<and>
     receive_message_raw (all_processes (st ! clock_ref p) r) st p m =
       ((st[clock_ref p := clock vc'] @ [clock vc'],
         p\<lparr>message_log := message_log p @
              [\<lparr>logged_message = m, local_clock = length st,
                timestamp = length (message_log p)\<rparr>]\<rparr>),
        Inr True)"
proof -
  from assms(1) have len: "clock_ref p < length st"
    and own: "process_id (vector_clock_of st p) \<in> set (dict_keys (clock (vector_clock_of st p)))"
    by (simp_all add: process_ok_def vector_clock_of_def)
  from update_own [OF own, of r] obtain vc' where
    upd: "update (vector_clock_of st p) r = Inr vc'" by blast
  have raw: "update_raw (all_processes (st ! clock_ref p) r) (vector_clock_of st p) (ints r)
      = (vc', Inr ())"
    using update_raw_ints [of "vector_clock_of st p" r] upd
    by (simp add: vector_clock_of_def)
  have "receive_message_raw (all_processes (st ! clock_ref p) r) st p m =
       ((st[clock_ref p := clock vc'] @ [clock vc'],
         p\<lparr>message_log := message_log p @
              [\<lparr>logged_message = m, local_clock = length st,
                timestamp = length (message_log p)\<rparr>]\<rparr>),
        Inr True)"
    using len by (simp add: receive_message_raw_def assms(2,3) raw obj_get_clock_def)
  with upd show ?thesis by blast
qed





section \<open>Sending from \<^verbatim>\<open>vector_process.py\<close>\<close>

lemma send_message_rpc_keeps_clock:
  "fst (send_message_rpc w) = w \<and>
   clock_field (snd (send_message_rpc w)) = Some (ints (clock_rpc w)) \<and>
   sender_port (snd (send_message_rpc w)) = Some (port w)"
  by (simp add: send_message_rpc_def)

text \<open>
  C4 at \<^verbatim>\<open>send_message\<close> of \<^verbatim>\<open>vector_process.py\<close>: the process on port 8001 with the
  clock \<^verbatim>\<open>{8001: 3, 8002: 0}\<close> stamps the message with \<^verbatim>\<open>{8001: 3, 8002: 0}\<close> and keeps
  its clock: the own entry is not incremented before the copy is taken. (The
  \<^verbatim>\<open>send_message\<close> of \<^verbatim>\<open>VectorClockProcess\<close> does increment first: \<open>send_message_stamp\<close>.)
\<close>

theorem send_message_rpc_no_increment:
  "send_message_rpc \<lparr>port = 8001 :: nat, clock_rpc = [(8001, 3), (8002, 0)]\<rparr>
     = (\<lparr>port = 8001, clock_rpc = [(8001, 3), (8002, 0)]\<rparr>,
        \<lparr>sender_port = Some 8001,
          clock_field = Some [(8001, PyInt 3), (8002, PyInt 0)]\<rparr>)"
  by (simp add: send_message_rpc_def ints_def)

end
